theory Spec2Isabelle
  imports Complex_Main "HOL-Library.Sublist"
begin

section \<open>Scalars, points and the target function\<close>

text \<open>
  The program computes with \<^verbatim>\<open>lol::real\<close>, an arbitrary-precision number of an external
  library. The development is about the exact arithmetic the algorithm is written in: a
  Scalar is a HOL \<^typ>\<open>real\<close>, and equality of Scalars is equality of reals. The
  rounding of the library to its fixed precision is not modelled: what is proved of a
  computed value is proved of the exact value, and says nothing about the digits that
  the program's rounded value has.
\<close>

datatype error = DivisionError | OutOfBounds

text \<open>\<^verbatim>\<open>struct real2 { real x, y; }\<close>; the selectors are \<open>px\<close> and \<open>py\<close>.\<close>

datatype real2 = Real2 (px: real) (py: real)

type_synonym target = "real \<Rightarrow> real \<Rightarrow> real"

text \<open>
  The target function \<^verbatim>\<open>f\<close> of the source. The solver below takes its target function as
  an argument \<open>tf\<close> (the source keeps a second target in a comment); the program runs it
  with \<open>f\<close>. At \<open>d = 1\<close> and \<open>d = -1\<close> the source divides by zero, which \<open>/\<close>
  does not show; \<open>f_pos\<close> below proves the divisor positive for \<open>x\<close> and \<open>y\<close>
  strictly between \<open>-1\<close> and \<open>1\<close>, where every node of the grid lies.
\<close>

definition f :: target where
  "f x y =
     (let one = 1;
          ff = (x + one) / 2;
          d = (y + one) / 2
      in sin ((one - ff) * arccos d) / sqrt (one - d * d))"

text \<open>
  Modelled from the spec: the division operator of the Scalar type, which belongs to the
  external arithmetic library. The spec of the iteration step says that the reciprocal
  "fails (propagate division error)" when the divisor is exactly zero.
\<close>

definition sdiv :: "real \<Rightarrow> real \<Rightarrow> error + real" where
  "sdiv a b = (if b = 0 then Inl DivisionError else Inr (a / b))"

section \<open>The evaluation cache\<close>

text \<open>
  \<^verbatim>\<open>static std::vector<std::array<real, 3>> cache\<close> is a static local of \<^verbatim>\<open>eval_f\<close>:
  one table for the whole process, not a member of \<^verbatim>\<open>solver\<close>. It is part of the world
  that every operation takes and returns. The world also logs each application of the
  target function, the effect that memoisation is there to avoid.
\<close>

record world =
  cache :: "(real \<times> real \<times> real) list"
  f_calls :: "(real \<times> real) list"

definition init_world :: world where
  "init_world = \<lparr>cache = [], f_calls = []\<rparr>"

text \<open>The linear scan of \<^verbatim>\<open>eval_f\<close>: the first triple whose coordinates both match.\<close>

fun lookup :: "(real \<times> real \<times> real) list \<Rightarrow> real \<Rightarrow> real \<Rightarrow> real option" where
  "lookup [] x y = None"
| "lookup ((a, b, v) # c) x y = (if x = a \<and> y = b then Some v else lookup c x y)"

text \<open>\<^verbatim>\<open>eval_f\<close> does not read any member of the solver it is called on.\<close>

definition eval_f :: "target \<Rightarrow> world \<Rightarrow> real \<Rightarrow> real \<Rightarrow> real \<times> world" where
  "eval_f tf w x y =
     (case lookup (cache w) x y of
        Some v \<Rightarrow> (v, w)
      | None \<Rightarrow>
          (let v = tf x y
           in (v, w\<lparr>cache := cache w @ [(x, y, v)], f_calls := f_calls w @ [(x, y)]\<rparr>)))"

section \<open>The solver\<close>

text \<open>
  Modelled from the spec: \<^verbatim>\<open>array2d<real>\<close> is declared outside the given source. The
  coefficient matrix is "a fixed-capacity 2D array indexed by plain integer coordinates",
  \<open>iters\<close> by \<open>iters\<close>: a list of rows, \<open>m_ek s ! j ! i\<close> for \<^verbatim>\<open>m_ek[j][i]\<close>. A
  default-constructed Scalar is zero, as the source relies on for \<^verbatim>\<open>ek_x\<close> and \<^verbatim>\<open>ek_y\<close>.
\<close>

record solver =
  m_grid_size :: int
  m_iters :: int
  m_ek :: "real list list"
  m_coeff :: "real list"
  m_pivots :: "real2 list"

text \<open>
  \<^verbatim>\<open>cheb\<close>. For \<open>n = 0\<close> the source divides by zero; the interface asks for
  \<open>grid_size \<ge> 1\<close> and the theorems about the solver assume it.
\<close>

definition cheb :: "int \<Rightarrow> int \<Rightarrow> real" where
  "cheb i n = - cos (pi * real_of_int i / real_of_int n) * (999999999999999 / 1000000000000000)"

text \<open>
  The constructor. It calls neither \<^verbatim>\<open>eval_f\<close> nor \<^verbatim>\<open>f\<close>, so it leaves the world
  alone, and it checks nothing. The interface asks for \<open>iters \<ge> 1\<close>; for
  \<open>iters \<le> 0\<close> the matrix of the model is empty.
\<close>

definition solver :: "int \<Rightarrow> int \<Rightarrow> solver" where
  "solver grid_size iters =
     \<lparr>m_grid_size = grid_size,
      m_iters = iters,
      m_ek = replicate (nat iters) (replicate (nat iters) 0),
      m_coeff = map (\<lambda>i. cheb i grid_size) [0..grid_size],
      m_pivots = []\<rparr>"

text \<open>
  The body of the double loop of \<^verbatim>\<open>eval_ek\<close>, at column \<open>i\<close> and row \<open>j\<close>.
  The language does not fix which of the two calls of \<^verbatim>\<open>eval_f\<close> in the product
  comes first; here it is the left one. The order decides only the order of the triples
  in the cache.
\<close>

definition ek_term :: "target \<Rightarrow> solver \<Rightarrow> real \<Rightarrow> real \<Rightarrow> nat \<Rightarrow> nat \<Rightarrow> real \<times> world \<Rightarrow> real \<times> world" where
  "ek_term tf s x y i j = (\<lambda>(ret, w).
     if m_ek s ! j ! i \<noteq> 0 then
       (let (a, w1) = eval_f tf w (px (m_pivots s ! i)) y;
            (b, w2) = eval_f tf w1 x (py (m_pivots s ! j))
        in (ret + m_ek s ! j ! i * a * b, w2))
     else (ret, w))"

definition eval_ek :: "target \<Rightarrow> solver \<Rightarrow> world \<Rightarrow> real \<Rightarrow> real \<Rightarrow> real \<times> world" where
  "eval_ek tf s w x y =
     (let n = length (m_pivots s)
      in fold (\<lambda>i. fold (\<lambda>j. ek_term tf s x y i j) [0..<n]) [0..<n] (eval_f tf w x y))"

text \<open>The pivot search of \<^verbatim>\<open>step\<close>: \<open>y\<close> is the outer loop and \<open>x\<close> the inner one.\<close>

definition scan_body :: "target \<Rightarrow> solver \<Rightarrow> real \<Rightarrow> real \<Rightarrow> real2 \<times> real \<times> world \<Rightarrow> real2 \<times> real \<times> world" where
  "scan_body tf s y x = (\<lambda>(best_pivot, best_val, w).
     (let (res, w1) = eval_ek tf s w x y
      in if \<bar>res\<bar> \<ge> \<bar>best_val\<bar> then (Real2 x y, res, w1) else (best_pivot, best_val, w1)))"

definition find_pivot :: "target \<Rightarrow> solver \<Rightarrow> world \<Rightarrow> real2 \<times> real \<times> world" where
  "find_pivot tf s w =
     fold (\<lambda>y. fold (\<lambda>x. scan_body tf s y x) (m_coeff s)) (m_coeff s) (Real2 0 0, 0, w)"

text \<open>The vectors \<^verbatim>\<open>ek_x\<close> and \<^verbatim>\<open>ek_y\<close> of \<^verbatim>\<open>step\<close>.\<close>

definition cross_body :: "target \<Rightarrow> solver \<Rightarrow> real2 \<Rightarrow> nat \<Rightarrow> nat \<Rightarrow>
    real list \<times> real list \<times> world \<Rightarrow> real list \<times> real list \<times> world" where
  "cross_body tf s best_pivot i j = (\<lambda>(ek_x, ek_y, w).
     if m_ek s ! j ! i \<noteq> 0 then
       (let (a, w1) = eval_f tf w (px (m_pivots s ! i)) (py best_pivot);
            ek_x' = ek_x[j := ek_x ! j + m_ek s ! j ! i * a];
            (b, w2) = eval_f tf w1 (px best_pivot) (py (m_pivots s ! j));
            ek_y' = ek_y[i := ek_y ! i + m_ek s ! j ! i * b]
        in (ek_x', ek_y', w2))
     else (ek_x, ek_y, w))"

definition cross_vectors :: "target \<Rightarrow> solver \<Rightarrow> world \<Rightarrow> real2 \<Rightarrow> real list \<times> real list \<times> world" where
  "cross_vectors tf s w best_pivot =
     (let n = length (m_pivots s);
          (ek_x, ek_y, w') =
             fold (\<lambda>i. fold (\<lambda>j. cross_body tf s best_pivot i j) [0..<n]) [0..<n]
               (replicate (n + 1) 0, replicate (n + 1) 0, w)
      in (ek_x[n := 1], ek_y[n := 1], w'))"

text \<open>The coefficient update, over the indices \<open>0 .. n\<close> in both directions.\<close>

definition update_ek :: "real list list \<Rightarrow> real list \<Rightarrow> real list \<Rightarrow> real \<Rightarrow> nat \<Rightarrow> real list list" where
  "update_ek M ek_x ek_y dk n =
     fold (\<lambda>i. fold (\<lambda>j M'. M'[j := (M' ! j)[i := M' ! j ! i - ek_y ! i * ek_x ! j * dk]])
                 [0..<n + 1]) [0..<n + 1] M"

definition in_bounds :: "real list list \<Rightarrow> nat \<Rightarrow> nat \<Rightarrow> bool" where
  "in_bounds M j i = (j < length M \<and> i < length (M ! j))"

text \<open>
  \<^verbatim>\<open>step\<close>. The source checks no index: an access of the update loop outside the matrix
  is the error \<open>OutOfBounds\<close> here. The error marks undefined behaviour; the source has
  no such test, and what the program goes on to do after the access is not modelled. The
  reads of \<^verbatim>\<open>eval_ek\<close> and of the cross vectors are at indices below the number of
  pivots.
\<close>

definition step :: "target \<Rightarrow> solver \<Rightarrow> world \<Rightarrow> error + (solver \<times> world)" where
  "step tf s w =
     (let (best_pivot, best_val, w1) = find_pivot tf s w
      in case sdiv 1 best_val of
           Inl e \<Rightarrow> Inl e
         | Inr dk \<Rightarrow>
             (let n = length (m_pivots s);
                  (ek_x, ek_y, w2) = cross_vectors tf s w1 best_pivot
              in if list_all (\<lambda>i. list_all (\<lambda>j. in_bounds (m_ek s) j i) [0..<n + 1]) [0..<n + 1]
                 then Inr (s\<lparr>m_ek := update_ek (m_ek s) ek_x ek_y dk n,
                             m_pivots := m_pivots s @ [best_pivot]\<rparr>, w2)
                 else Inl OutOfBounds))"

text \<open>The loop of \<^verbatim>\<open>main\<close>: \<open>n\<close> steps, stopping at the first error.\<close>

fun steps :: "target \<Rightarrow> nat \<Rightarrow> solver \<Rightarrow> world \<Rightarrow> error + (solver \<times> world)" where
  "steps tf 0 s w = Inr (s, w)"
| "steps tf (Suc n) s w =
     (case step tf s w of Inl e \<Rightarrow> Inl e | Inr (s', w') \<Rightarrow> steps tf n s' w')"

section \<open>The recurrence emitter\<close>

text \<open>
  \<^verbatim>\<open>dump_gnuplot\<close> writes characters to the standard output; here it returns them.
  \<open>dec\<close> is the decimal output of a non-negative integer, and \<open>pr\<close> stands for
  the output of a Scalar at \<^verbatim>\<open>setprecision(20)\<close>, which the arithmetic library defines.
\<close>

fun dec :: "nat \<Rightarrow> string" where
  "dec n = (if n < 10 then [''0123456789'' ! n] else dec (n div 10) @ [''0123456789'' ! (n mod 10)])"

declare dec.simps [simp del]

definition nl :: string where
  "nl = [CHR 0x0A]"

text \<open>
  The four statements that the loop of \<^verbatim>\<open>dump_gnuplot\<close> prints for the index \<open>n\<close>.
\<close>

definition pivot_lines :: "(real \<Rightarrow> string) \<Rightarrow> real2 list \<Rightarrow> nat \<Rightarrow> string" where
  "pivot_lines pr pivots n =
     ''x'' @ dec (n + 1) @ ''='' @ pr (px (pivots ! n)) @ nl @
     ''y'' @ dec (n + 1) @ ''='' @ pr (py (pivots ! n)) @ nl @
     ''d'' @ dec (n + 1) @ ''=e'' @ dec n @ ''(x'' @ dec (n + 1) @ '',y'' @ dec (n + 1) @ '')'' @ nl @
     ''e'' @ dec (n + 1) @ ''(x,y)=e'' @ dec n @ ''(x,y)-e'' @ dec n @
       ''(x'' @ dec (n + 1) @ '',y)*e'' @ dec n @ ''(x,y'' @ dec (n + 1) @
       '')/d'' @ dec (n + 1) @ nl"

definition dump_gnuplot :: "(real \<Rightarrow> string) \<Rightarrow> solver \<Rightarrow> string" where
  "dump_gnuplot pr s =
     ''f(x,y)=sin((1-x)/2*acos((1+y)/2))/sqrt(1-((y+1)/2)**2)'' @ nl @
     ''e0(x,y)=f(x,y)'' @ nl @
     concat (map (pivot_lines pr (m_pivots s)) [0..<length (m_pivots s)]) @
     ''splot [-1:1][-1:1] e'' @ dec (length (m_pivots s)) @ ''(x,y)'' @ nl"

text \<open>
  \<^verbatim>\<open>main\<close>, with the printing of Scalars as an argument: \<open>grid_size = 33\<close>,
  \<open>iters = 6\<close>, six steps and the dump.
\<close>

definition main :: "(real \<Rightarrow> string) \<Rightarrow> error + string" where
  "main pr =
     (let grid_size = 33; iters = 6
      in case steps f (nat iters) (solver grid_size iters) init_world of
           Inl e \<Rightarrow> Inl e
         | Inr (s, w) \<Rightarrow> Inr (dump_gnuplot pr s))"

section \<open>Invariants and closed forms\<close>

text \<open>
  The cache is consistent with a target function when every triple holds the value of the
  function at its coordinates, the log of applications lists the coordinates of the
  triples in order, and no pair of coordinates occurs twice.
\<close>

definition cache_inv :: "target \<Rightarrow> world \<Rightarrow> bool" where
  "cache_inv tf w =
     (list_all (\<lambda>(a, b, v). v = tf a b) (cache w) \<and>
      f_calls w = map (\<lambda>(a, b, v). (a, b)) (cache w) \<and>
      distinct (f_calls w))"

text \<open>
  The closed form of the error function: the implicit target term plus the double sum
  over the pivots, no entry skipped.
\<close>

definition ek_sum :: "target \<Rightarrow> solver \<Rightarrow> real \<Rightarrow> real \<Rightarrow> real" where
  "ek_sum tf s x y =
     tf x y + (\<Sum>i<length (m_pivots s). \<Sum>j<length (m_pivots s).
        m_ek s ! j ! i * tf (px (m_pivots s ! i)) y * tf x (py (m_pivots s ! j)))"

text \<open>
  The order in which the pivot search visits the pairs \<open>(x, y)\<close>, and the pure form of
  its comparison.
\<close>

definition scan_order :: "solver \<Rightarrow> (real \<times> real) list" where
  "scan_order s = concat (map (\<lambda>y. map (\<lambda>x. (x, y)) (m_coeff s)) (m_coeff s))"

definition pick :: "(real \<Rightarrow> real \<Rightarrow> real) \<Rightarrow> real \<times> real \<Rightarrow> real2 \<times> real \<Rightarrow> real2 \<times> real" where
  "pick e p b = (if \<bar>e (fst p) (snd p)\<bar> \<ge> \<bar>snd b\<bar> then (Real2 (fst p) (snd p), e (fst p) (snd p)) else b)"

definition best :: "target \<Rightarrow> solver \<Rightarrow> real2 \<times> real" where
  "best tf s = fold (pick (ek_sum tf s)) (scan_order s) (Real2 0 0, 0)"

text \<open>
  The shape of the solver after \<open>k\<close> steps: \<open>k\<close> pivots, a square matrix of
  dimension \<open>iters\<close>, zero outside the leading block of size \<open>k\<close>.
\<close>

definition solver_inv :: "int \<Rightarrow> nat \<Rightarrow> solver \<Rightarrow> bool" where
  "solver_inv it k s =
     (length (m_pivots s) = k \<and> k \<le> nat it \<and>
      length (m_ek s) = nat it \<and>
      (\<forall>j<nat it. length (m_ek s ! j) = nat it) \<and>
      (\<forall>i<nat it. \<forall>j<nat it. k \<le> i \<or> k \<le> j \<longrightarrow> m_ek s ! j ! i = 0))"

section \<open>The wording of the specification\<close>

text \<open>
  The pivot as the specification words it: the pair of maximal absolute residual,
  "breaking ties by first-encountered". A later pair replaces the current one only when
  its residual is strictly larger in absolute value.
\<close>

definition spec_first_max :: "target \<Rightarrow> solver \<Rightarrow> world \<Rightarrow> (real \<times> real) option" where
  "spec_first_max tf s w =
     (case scan_order s of
        [] \<Rightarrow> None
      | q # qs \<Rightarrow>
          Some (fold (\<lambda>q' b. if \<bar>fst (eval_ek tf s w (fst q') (snd q'))\<bar> > \<bar>fst (eval_ek tf s w (fst b) (snd b))\<bar>
                              then q' else b) qs q))"

text \<open>
  The output as the specification lists it: the definition of \<open>f\<close>, the line for
  \<open>e0\<close>, four statements for each pivot \<open>n = 1, 2, ...\<close>, and the plot line.
\<close>

fun spec_statements :: "(real \<Rightarrow> string) \<Rightarrow> nat \<Rightarrow> real2 list \<Rightarrow> string list" where
  "spec_statements pr n [] = []"
| "spec_statements pr n (p # ps) =
     [''x'' @ dec n @ ''='' @ pr (px p),
      ''y'' @ dec n @ ''='' @ pr (py p),
      ''d'' @ dec n @ ''=e'' @ dec (n - 1) @ ''(x'' @ dec n @ '',y'' @ dec n @ '')'',
      ''e'' @ dec n @ ''(x,y)=e'' @ dec (n - 1) @ ''(x,y)-e'' @ dec (n - 1) @
        ''(x'' @ dec n @ '',y)*e'' @ dec (n - 1) @ ''(x,y'' @ dec n @ '')/d'' @ dec n]
     @ spec_statements pr (n + 1) ps"

definition spec_output :: "(real \<Rightarrow> string) \<Rightarrow> real2 list \<Rightarrow> string" where
  "spec_output pr pivots =
     concat (map (\<lambda>l. l @ nl)
       ([''f(x,y)=sin((1-x)/2*acos((1+y)/2))/sqrt(1-((y+1)/2)**2)'', ''e0(x,y)=f(x,y)'']
        @ spec_statements pr 1 pivots
        @ [''splot [-1:1][-1:1] e'' @ dec (length pivots) @ ''(x,y)'']))"

section \<open>A sample run\<close>

text \<open>
  A run that the simplifier can compute: the target \<open>x + y\<close> on the grid of size 1,
  whose two nodes are \<open>- c15\<close> and \<open>c15\<close>. \<open>grid_world\<close> is the world once the
  target has been evaluated at the four pairs of the grid, \<open>after_one\<close> and
  \<open>after_two\<close> are the solver after one and two steps.
\<close>

definition tf_sum :: target where "tf_sum x y = x + y"

abbreviation c15 :: real where "c15 \<equiv> 999999999999999 / 1000000000000000"

definition grid_world :: world where
  "grid_world = \<lparr>cache = [(- c15, - c15, - (999999999999999 / 500000000000000)), (c15, - c15, 0),
                  (- c15, c15, 0), (c15, c15, 999999999999999 / 500000000000000)],
          f_calls = [(- c15, - c15), (c15, - c15), (- c15, c15), (c15, c15)]\<rparr>"

definition after_one :: "int \<Rightarrow> solver" where
  "after_one it = \<lparr>m_grid_size = 1, m_iters = it,
     m_ek = (replicate (nat it) (replicate (nat it) 0))[0 := (replicate (nat it) 0)[0 := - (500000000000000 / 999999999999999)]],
     m_coeff = [- c15, c15], m_pivots = [Real2 c15 c15]\<rparr>"

definition after_two :: "int \<Rightarrow> solver" where
  "after_two it = \<lparr>m_grid_size = 1, m_iters = it,
     m_ek = (replicate (nat it) (replicate (nat it) 0))
              [0 := (replicate (nat it) 0)[0 := - (500000000000000 / 999999999999999)],
               1 := (replicate (nat it) 0)[1 := 500000000000000 / 999999999999999]],
     m_coeff = [- c15, c15], m_pivots = [Real2 c15 c15, Real2 (- c15) (- c15)]\<rparr>"

definition pr_literal :: "real \<Rightarrow> string" where
  "pr_literal r = ''<literal>''"

section \<open>The cache invariant\<close>

lemma cache_inv_init: "cache_inv tf init_world"
  by (simp add: cache_inv_def init_world_def)

lemma lookup_Some_mem: "lookup c x y = Some v \<Longrightarrow> (x, y, v) \<in> set c"
  by (induction c x y rule: lookup.induct) (auto split: if_splits)

lemma lookup_None_iff: "lookup c x y = None \<longleftrightarrow> (x, y) \<notin> set (map (\<lambda>(a, b, v). (a, b)) c)"
  by (induction c x y rule: lookup.induct) auto

lemma eval_f_value: "cache_inv tf w \<Longrightarrow> fst (eval_f tf w x y) = tf x y"
  by (auto simp: eval_f_def cache_inv_def list_all_iff Let_def split: option.splits dest!: lookup_Some_mem)

lemma eval_f_inv: "cache_inv tf w \<Longrightarrow> cache_inv tf (snd (eval_f tf w x y))"
  by (auto simp: eval_f_def cache_inv_def lookup_None_iff Let_def split: option.splits)

lemma eval_f_prefix: "prefix (cache w) (cache (snd (eval_f tf w x y)))"
  by (auto simp: eval_f_def Let_def split: option.splits)

lemma eval_f_eq: "cache_inv tf w \<Longrightarrow> eval_f tf w x y = (tf x y, snd (eval_f tf w x y))"
  using eval_f_value[of tf w x y] by (cases "eval_f tf w x y") simp

section \<open>The error function in closed form\<close>

lemma ek_term_inv:
  assumes "cache_inv tf w"
  shows "\<exists>w'. ek_term tf s x y i j (r, w) =
           (r + m_ek s ! j ! i * tf (px (m_pivots s ! i)) y * tf x (py (m_pivots s ! j)), w')
         \<and> cache_inv tf w' \<and> prefix (cache w) (cache w')"
proof (cases "m_ek s ! j ! i = 0")
  case True
  then show ?thesis using assms by (simp add: ek_term_def)
next
  case False
  obtain w1 where e1: "eval_f tf w (px (m_pivots s ! i)) y = (tf (px (m_pivots s ! i)) y, w1)"
    using eval_f_eq[OF assms] by blast
  have i1: "cache_inv tf w1" using eval_f_inv[OF assms, of "px (m_pivots s ! i)" y] e1 by simp
  obtain w2 where e2: "eval_f tf w1 x (py (m_pivots s ! j)) = (tf x (py (m_pivots s ! j)), w2)"
    using eval_f_eq[OF i1] by blast
  have i2: "cache_inv tf w2" using eval_f_inv[OF i1, of x "py (m_pivots s ! j)"] e2 by simp
  have "prefix (cache w) (cache w1)" using eval_f_prefix[of w tf "px (m_pivots s ! i)" y] e1 by simp
  moreover have "prefix (cache w1) (cache w2)"
    using eval_f_prefix[of w1 tf x "py (m_pivots s ! j)"] e2 by simp
  ultimately have p: "prefix (cache w) (cache w2)" using prefix_order.order_trans by blast
  have "ek_term tf s x y i j (r, w) =
     (r + m_ek s ! j ! i * tf (px (m_pivots s ! i)) y * tf x (py (m_pivots s ! j)), w2)"
    using False by (simp add: ek_term_def e1 e2)
  then show ?thesis using i2 p by blast
qed

lemma ek_inner:
  "cache_inv tf w \<Longrightarrow>
   \<exists>w'. fold (\<lambda>j. ek_term tf s x y i j) js (r, w) =
      (r + (\<Sum>j\<leftarrow>js. m_ek s ! j ! i * tf (px (m_pivots s ! i)) y * tf x (py (m_pivots s ! j))), w')
    \<and> cache_inv tf w' \<and> prefix (cache w) (cache w')"
proof (induction js arbitrary: r w)
  case Nil
  then show ?case by simp
next
  case (Cons j js)
  from ek_term_inv[OF Cons.prems, of s x y i j r] obtain w1 where
    1: "ek_term tf s x y i j (r, w) =
         (r + m_ek s ! j ! i * tf (px (m_pivots s ! i)) y * tf x (py (m_pivots s ! j)), w1)"
    and 2: "cache_inv tf w1" and 3: "prefix (cache w) (cache w1)" by blast
  from Cons.IH[OF 2] obtain w2 where
    4: "fold (\<lambda>j. ek_term tf s x y i j) js
          (r + m_ek s ! j ! i * tf (px (m_pivots s ! i)) y * tf x (py (m_pivots s ! j)), w1) =
        (r + m_ek s ! j ! i * tf (px (m_pivots s ! i)) y * tf x (py (m_pivots s ! j)) +
          (\<Sum>j\<leftarrow>js. m_ek s ! j ! i * tf (px (m_pivots s ! i)) y * tf x (py (m_pivots s ! j))), w2)"
    and 5: "cache_inv tf w2" and 6: "prefix (cache w1) (cache w2)" by blast
  have "prefix (cache w) (cache w2)" using 3 6 prefix_order.order_trans by blast
  then show ?case using 1 4 5 by (auto simp: add.assoc)
qed

lemma ek_outer:
  "cache_inv tf w \<Longrightarrow>
   \<exists>w'. fold (\<lambda>i. fold (\<lambda>j. ek_term tf s x y i j) js) is (r, w) =
      (r + (\<Sum>i\<leftarrow>is. \<Sum>j\<leftarrow>js. m_ek s ! j ! i * tf (px (m_pivots s ! i)) y * tf x (py (m_pivots s ! j))), w')
    \<and> cache_inv tf w' \<and> prefix (cache w) (cache w')"
proof (induction "is" arbitrary: r w)
  case Nil
  then show ?case by simp
next
  case (Cons i "is")
  from ek_inner[OF Cons.prems, of s x y i js r] obtain w1 where
    1: "fold (\<lambda>j. ek_term tf s x y i j) js (r, w) =
      (r + (\<Sum>j\<leftarrow>js. m_ek s ! j ! i * tf (px (m_pivots s ! i)) y * tf x (py (m_pivots s ! j))), w1)"
    and 2: "cache_inv tf w1" and 3: "prefix (cache w) (cache w1)" by blast
  from Cons.IH[OF 2] obtain w2 where
    4: "fold (\<lambda>i. fold (\<lambda>j. ek_term tf s x y i j) js) is
         (r + (\<Sum>j\<leftarrow>js. m_ek s ! j ! i * tf (px (m_pivots s ! i)) y * tf x (py (m_pivots s ! j))), w1) =
      (r + (\<Sum>j\<leftarrow>js. m_ek s ! j ! i * tf (px (m_pivots s ! i)) y * tf x (py (m_pivots s ! j))) +
        (\<Sum>i\<leftarrow>is. \<Sum>j\<leftarrow>js. m_ek s ! j ! i * tf (px (m_pivots s ! i)) y * tf x (py (m_pivots s ! j))), w2)"
    and 5: "cache_inv tf w2" and 6: "prefix (cache w1) (cache w2)" by blast
  have "prefix (cache w) (cache w2)" using 3 6 prefix_order.order_trans by blast
  then show ?case using 1 4 5 by (auto simp: add.assoc)
qed

lemma sum_list_upt: "(\<Sum>i\<leftarrow>[0..<n]. g i) = (\<Sum>i<n. (g i :: real))"
  by (simp add: interv_sum_list_conv_sum_set_nat atLeast0LessThan)

lemma eval_ek_inv:
  assumes "cache_inv tf w"
  shows "\<exists>w'. eval_ek tf s w x y = (ek_sum tf s x y, w') \<and> cache_inv tf w' \<and> prefix (cache w) (cache w')"
proof -
  let ?w0 = "snd (eval_f tf w x y)"
  have 0: "eval_f tf w x y = (tf x y, ?w0)" using assms by (rule eval_f_eq)
  have i0: "cache_inv tf ?w0" using assms by (rule eval_f_inv)
  from ek_outer[OF i0, of s x y "[0..<length (m_pivots s)]" "[0..<length (m_pivots s)]" "tf x y"]
  obtain w' where 1: "fold (\<lambda>i. fold (\<lambda>j. ek_term tf s x y i j) [0..<length (m_pivots s)]) [0..<length (m_pivots s)] (tf x y, ?w0) =
      (tf x y + (\<Sum>i\<leftarrow>[0..<length (m_pivots s)]. \<Sum>j\<leftarrow>[0..<length (m_pivots s)]. m_ek s ! j ! i * tf (px (m_pivots s ! i)) y * tf x (py (m_pivots s ! j))), w')"
    and 2: "cache_inv tf w'" and 3: "prefix (cache ?w0) (cache w')" by blast
  have "prefix (cache w) (cache w')"
    using 3 eval_f_prefix[of w tf x y] prefix_order.order_trans by blast
  moreover have "eval_ek tf s w x y = (ek_sum tf s x y, w')"
    using 0 1 by (simp add: eval_ek_def ek_sum_def sum_list_upt Let_def)
  ultimately show ?thesis using 2 by blast
qed

section \<open>The pivot search\<close>

lemma eval_f_called: "cache_inv tf w \<Longrightarrow> (x, y) \<in> set (f_calls (snd (eval_f tf w x y)))"
  by (force simp: eval_f_def cache_inv_def Let_def split: option.splits dest!: lookup_Some_mem)

lemma calls_mono:
  assumes "cache_inv tf w" "cache_inv tf w'" "prefix (cache w) (cache w')"
  shows "set (f_calls w) \<subseteq> set (f_calls w')"
proof -
  from assms(3) obtain zs where "cache w' = cache w @ zs" by (auto simp: prefix_def)
  then show ?thesis using assms(1,2) by (auto simp: cache_inv_def)
qed

lemma eval_ek_called:
  assumes "cache_inv tf w"
  shows "(x, y) \<in> set (f_calls (snd (eval_ek tf s w x y)))"
proof -
  let ?w0 = "snd (eval_f tf w x y)"
  have i0: "cache_inv tf ?w0" using assms by (rule eval_f_inv)
  have e0: "eval_f tf w x y = (tf x y, ?w0)" using assms by (rule eval_f_eq)
  from ek_outer[OF i0, of s x y "[0..<length (m_pivots s)]" "[0..<length (m_pivots s)]" "tf x y"]
  obtain w' where 1: "fold (\<lambda>i. fold (\<lambda>j. ek_term tf s x y i j) [0..<length (m_pivots s)]) [0..<length (m_pivots s)] (tf x y, ?w0) =
      (tf x y + (\<Sum>i\<leftarrow>[0..<length (m_pivots s)]. \<Sum>j\<leftarrow>[0..<length (m_pivots s)]. m_ek s ! j ! i * tf (px (m_pivots s ! i)) y * tf x (py (m_pivots s ! j))), w')"
    and 2: "cache_inv tf w'" and 3: "prefix (cache ?w0) (cache w')" by blast
  have "snd (eval_ek tf s w x y) = w'" using e0 1 by (simp add: eval_ek_def Let_def)
  then show ?thesis using calls_mono[OF i0 2 3] eval_f_called[OF assms, of x y] by auto
qed

lemma scan_body_inv:
  assumes "cache_inv tf w"
  shows "\<exists>w'. scan_body tf s y x (fst b, snd b, w) =
            (fst (pick (ek_sum tf s) (x, y) b), snd (pick (ek_sum tf s) (x, y) b), w')
          \<and> cache_inv tf w' \<and> prefix (cache w) (cache w') \<and> (x, y) \<in> set (f_calls w')"
proof -
  from eval_ek_inv[OF assms, of s x y] obtain w' where
    1: "eval_ek tf s w x y = (ek_sum tf s x y, w')" and 2: "cache_inv tf w'"
    and 3: "prefix (cache w) (cache w')" by blast
  have 4: "(x, y) \<in> set (f_calls w')" using eval_ek_called[OF assms, of x y s] 1 by simp
  have "scan_body tf s y x (fst b, snd b, w) =
            (fst (pick (ek_sum tf s) (x, y) b), snd (pick (ek_sum tf s) (x, y) b), w')"
    by (simp add: scan_body_def 1 pick_def)
  then show ?thesis using 2 3 4 by blast
qed

lemma scan_inner:
  "cache_inv tf w \<Longrightarrow>
   \<exists>w'. fold (\<lambda>x. scan_body tf s y x) xs (fst b, snd b, w) =
      (fst (fold (pick (ek_sum tf s)) (map (\<lambda>x. (x, y)) xs) b),
       snd (fold (pick (ek_sum tf s)) (map (\<lambda>x. (x, y)) xs) b), w')
    \<and> cache_inv tf w' \<and> prefix (cache w) (cache w')
    \<and> set (map (\<lambda>x. (x, y)) xs) \<subseteq> set (f_calls w')"
proof (induction xs arbitrary: b w)
  case Nil
  then show ?case by simp
next
  case (Cons x xs)
  let ?b1 = "pick (ek_sum tf s) (x, y) b"
  from scan_body_inv[OF Cons.prems, of s y x b] obtain w1 where
    1: "scan_body tf s y x (fst b, snd b, w) = (fst ?b1, snd ?b1, w1)"
    and 2: "cache_inv tf w1" and 3: "prefix (cache w) (cache w1)"
    and 4: "(x, y) \<in> set (f_calls w1)" by blast
  from Cons.IH[OF 2, of ?b1] obtain w2 where
    5: "fold (\<lambda>x. scan_body tf s y x) xs (fst ?b1, snd ?b1, w1) =
      (fst (fold (pick (ek_sum tf s)) (map (\<lambda>x. (x, y)) xs) ?b1),
       snd (fold (pick (ek_sum tf s)) (map (\<lambda>x. (x, y)) xs) ?b1), w2)"
    and 6: "cache_inv tf w2" and 7: "prefix (cache w1) (cache w2)"
    and 8: "set (map (\<lambda>x. (x, y)) xs) \<subseteq> set (f_calls w2)" by blast
  have 9: "prefix (cache w) (cache w2)" using 3 7 prefix_order.order_trans by blast
  have 10: "(x, y) \<in> set (f_calls w2)" using calls_mono[OF 2 6 7] 4 by auto
  show ?case using 1 5 6 8 9 10 by auto
qed

lemma scan_outer:
  "cache_inv tf w \<Longrightarrow>
   \<exists>w'. fold (\<lambda>y. fold (\<lambda>x. scan_body tf s y x) xs) ys (fst b, snd b, w) =
      (fst (fold (pick (ek_sum tf s)) (concat (map (\<lambda>y. map (\<lambda>x. (x, y)) xs) ys)) b),
       snd (fold (pick (ek_sum tf s)) (concat (map (\<lambda>y. map (\<lambda>x. (x, y)) xs) ys)) b), w')
    \<and> cache_inv tf w' \<and> prefix (cache w) (cache w')
    \<and> set (concat (map (\<lambda>y. map (\<lambda>x. (x, y)) xs) ys)) \<subseteq> set (f_calls w')"
proof (induction ys arbitrary: b w)
  case Nil
  then show ?case by simp
next
  case (Cons y ys)
  let ?b1 = "fold (pick (ek_sum tf s)) (map (\<lambda>x. (x, y)) xs) b"
  from scan_inner[OF Cons.prems, of s y xs b] obtain w1 where
    1: "fold (\<lambda>x. scan_body tf s y x) xs (fst b, snd b, w) = (fst ?b1, snd ?b1, w1)"
    and 2: "cache_inv tf w1" and 3: "prefix (cache w) (cache w1)"
    and 4: "set (map (\<lambda>x. (x, y)) xs) \<subseteq> set (f_calls w1)" by blast
  from Cons.IH[OF 2, of ?b1] obtain w2 where
    5: "fold (\<lambda>y. fold (\<lambda>x. scan_body tf s y x) xs) ys (fst ?b1, snd ?b1, w1) =
      (fst (fold (pick (ek_sum tf s)) (concat (map (\<lambda>y. map (\<lambda>x. (x, y)) xs) ys)) ?b1),
       snd (fold (pick (ek_sum tf s)) (concat (map (\<lambda>y. map (\<lambda>x. (x, y)) xs) ys)) ?b1), w2)"
    and 6: "cache_inv tf w2" and 7: "prefix (cache w1) (cache w2)"
    and 8: "set (concat (map (\<lambda>y. map (\<lambda>x. (x, y)) xs) ys)) \<subseteq> set (f_calls w2)" by blast
  have 9: "prefix (cache w) (cache w2)" using 3 7 prefix_order.order_trans by blast
  have 10: "set (map (\<lambda>x. (x, y)) xs) \<subseteq> set (f_calls w2)" using calls_mono[OF 2 6 7] 4 by auto
  show ?case using 1 5 6 8 9 10 by auto
qed

lemma find_pivot_inv:
  assumes "cache_inv tf w"
  shows "\<exists>w'. find_pivot tf s w =
            (fst (fold (pick (ek_sum tf s)) (scan_order s) (Real2 0 0, 0)),
             snd (fold (pick (ek_sum tf s)) (scan_order s) (Real2 0 0, 0)), w')
          \<and> cache_inv tf w' \<and> prefix (cache w) (cache w')
          \<and> set (scan_order s) \<subseteq> set (f_calls w')"
  using scan_outer[OF assms, of s "m_coeff s" "m_coeff s" "(Real2 0 0, 0)"]
  by (simp add: find_pivot_def scan_order_def)

lemma pick_fold_max:
  "(\<forall>p\<in>set ps. \<bar>e (fst p) (snd p)\<bar> \<le> \<bar>snd (fold (pick e) ps b0)\<bar>) \<and>
   (fold (pick e) ps b0 = b0 \<and> (\<forall>p\<in>set ps. \<bar>e (fst p) (snd p)\<bar> < \<bar>snd b0\<bar>) \<or>
    (\<exists>n<length ps. fold (pick e) ps b0 = (Real2 (fst (ps ! n)) (snd (ps ! n)), e (fst (ps ! n)) (snd (ps ! n))) \<and>
       \<bar>snd b0\<bar> \<le> \<bar>e (fst (ps ! n)) (snd (ps ! n))\<bar> \<and>
       (\<forall>m<length ps. n < m \<longrightarrow> \<bar>e (fst (ps ! m)) (snd (ps ! m))\<bar> < \<bar>e (fst (ps ! n)) (snd (ps ! n))\<bar>)))"
proof (induction ps rule: rev_induct)
  case Nil
  then show ?case by simp
next
  case (snoc p ps)
  let ?b = "fold (pick e) ps b0"
  show ?case
  proof (cases "\<bar>e (fst p) (snd p)\<bar> \<ge> \<bar>snd ?b\<bar>")
    case True
    then have r: "fold (pick e) (ps @ [p]) b0 = (Real2 (fst p) (snd p), e (fst p) (snd p))"
      by (simp add: pick_def)
    have a: "\<forall>q\<in>set (ps @ [p]). \<bar>e (fst q) (snd q)\<bar> \<le> \<bar>e (fst p) (snd p)\<bar>"
      using snoc True by fastforce
    have b: "\<bar>snd b0\<bar> \<le> \<bar>e (fst p) (snd p)\<bar>"
      using snoc True by fastforce
    have "length ps < length (ps @ [p]) \<and>
       fold (pick e) (ps @ [p]) b0 = (Real2 (fst ((ps @ [p]) ! length ps)) (snd ((ps @ [p]) ! length ps)),
           e (fst ((ps @ [p]) ! length ps)) (snd ((ps @ [p]) ! length ps))) \<and>
       \<bar>snd b0\<bar> \<le> \<bar>e (fst ((ps @ [p]) ! length ps)) (snd ((ps @ [p]) ! length ps))\<bar> \<and>
       (\<forall>m<length (ps @ [p]). length ps < m \<longrightarrow>
          \<bar>e (fst ((ps @ [p]) ! m)) (snd ((ps @ [p]) ! m))\<bar> < \<bar>e (fst ((ps @ [p]) ! length ps)) (snd ((ps @ [p]) ! length ps))\<bar>)"
      using r b by simp
    then show ?thesis using a r by (metis snd_conv)
  next
    case False
    then have r: "fold (pick e) (ps @ [p]) b0 = ?b" by (simp add: pick_def)
    have lt: "\<bar>e (fst p) (snd p)\<bar> < \<bar>snd ?b\<bar>" using False by simp
    from snoc have mx: "\<forall>q\<in>set ps. \<bar>e (fst q) (snd q)\<bar> \<le> \<bar>snd ?b\<bar>" by blast
    have a: "\<forall>q\<in>set (ps @ [p]). \<bar>e (fst q) (snd q)\<bar> \<le> \<bar>snd (fold (pick e) (ps @ [p]) b0)\<bar>"
      using mx lt r by auto
    from snoc consider
      (same) "?b = b0" "\<forall>p\<in>set ps. \<bar>e (fst p) (snd p)\<bar> < \<bar>snd b0\<bar>"
      | (idx) n where "n < length ps"
          "?b = (Real2 (fst (ps ! n)) (snd (ps ! n)), e (fst (ps ! n)) (snd (ps ! n)))"
          "\<bar>snd b0\<bar> \<le> \<bar>e (fst (ps ! n)) (snd (ps ! n))\<bar>"
          "\<forall>m<length ps. n < m \<longrightarrow> \<bar>e (fst (ps ! m)) (snd (ps ! m))\<bar> < \<bar>e (fst (ps ! n)) (snd (ps ! n))\<bar>"
      by blast
    then show ?thesis
    proof cases
      case same
      then have "fold (pick e) (ps @ [p]) b0 = b0 \<and> (\<forall>q\<in>set (ps @ [p]). \<bar>e (fst q) (snd q)\<bar> < \<bar>snd b0\<bar>)"
        using r lt by auto
      then show ?thesis using a by blast
    next
      case idx
      have n1: "n < length (ps @ [p])" using idx(1) by simp
      have n2: "(ps @ [p]) ! n = ps ! n" using idx(1) by (simp add: nth_append)
      have lt': "\<bar>e (fst p) (snd p)\<bar> < \<bar>e (fst (ps ! n)) (snd (ps ! n))\<bar>" using lt idx(2) by simp
      have n3: "\<forall>m<length (ps @ [p]). n < m \<longrightarrow>
          \<bar>e (fst ((ps @ [p]) ! m)) (snd ((ps @ [p]) ! m))\<bar> < \<bar>e (fst ((ps @ [p]) ! n)) (snd ((ps @ [p]) ! n))\<bar>"
      proof (intro allI impI)
        fix m assume m: "m < length (ps @ [p])" "n < m"
        show "\<bar>e (fst ((ps @ [p]) ! m)) (snd ((ps @ [p]) ! m))\<bar> < \<bar>e (fst ((ps @ [p]) ! n)) (snd ((ps @ [p]) ! n))\<bar>"
        proof (cases "m < length ps")
          case True
          then show ?thesis using idx(4) m(2) n2 by (simp add: nth_append)
        next
          case False
          then have "m = length ps" using m(1) by simp
          then show ?thesis using lt' n2 by simp
        qed
      qed
      have "\<exists>n<length (ps @ [p]). fold (pick e) (ps @ [p]) b0 =
          (Real2 (fst ((ps @ [p]) ! n)) (snd ((ps @ [p]) ! n)), e (fst ((ps @ [p]) ! n)) (snd ((ps @ [p]) ! n))) \<and>
          \<bar>snd b0\<bar> \<le> \<bar>e (fst ((ps @ [p]) ! n)) (snd ((ps @ [p]) ! n))\<bar> \<and>
          (\<forall>m<length (ps @ [p]). n < m \<longrightarrow>
          \<bar>e (fst ((ps @ [p]) ! m)) (snd ((ps @ [p]) ! m))\<bar> < \<bar>e (fst ((ps @ [p]) ! n)) (snd ((ps @ [p]) ! n))\<bar>)"
        using n1 n2 n3 r idx(2,3) by (intro exI[of _ n]) simp
      then show ?thesis using a by blast
    qed
  qed
qed

section \<open>The cross vectors\<close>

lemma cross_body_inv:
  assumes "cache_inv tf w"
  shows "\<exists>w'. cross_body tf s bp i j (ex, ey, w) =
            (ex[j := ex ! j + m_ek s ! j ! i * tf (px (m_pivots s ! i)) (py bp)],
             ey[i := ey ! i + m_ek s ! j ! i * tf (px bp) (py (m_pivots s ! j))], w')
          \<and> cache_inv tf w' \<and> prefix (cache w) (cache w')"
proof (cases "m_ek s ! j ! i = 0")
  case True
  then show ?thesis using assms by (simp add: cross_body_def)
next
  case False
  obtain w1 where e1: "eval_f tf w (px (m_pivots s ! i)) (py bp) = (tf (px (m_pivots s ! i)) (py bp), w1)"
    using eval_f_eq[OF assms] by blast
  have i1: "cache_inv tf w1" using eval_f_inv[OF assms, of "px (m_pivots s ! i)" "py bp"] e1 by simp
  obtain w2 where e2: "eval_f tf w1 (px bp) (py (m_pivots s ! j)) = (tf (px bp) (py (m_pivots s ! j)), w2)"
    using eval_f_eq[OF i1] by blast
  have i2: "cache_inv tf w2" using eval_f_inv[OF i1, of "px bp" "py (m_pivots s ! j)"] e2 by simp
  have "prefix (cache w) (cache w1)" using eval_f_prefix[of w tf "px (m_pivots s ! i)" "py bp"] e1 by simp
  moreover have "prefix (cache w1) (cache w2)"
    using eval_f_prefix[of w1 tf "px bp" "py (m_pivots s ! j)"] e2 by simp
  ultimately have p: "prefix (cache w) (cache w2)" using prefix_order.order_trans by blast
  have "cross_body tf s bp i j (ex, ey, w) =
            (ex[j := ex ! j + m_ek s ! j ! i * tf (px (m_pivots s ! i)) (py bp)],
             ey[i := ey ! i + m_ek s ! j ! i * tf (px bp) (py (m_pivots s ! j))], w2)"
    using False by (simp add: cross_body_def e1 e2)
  then show ?thesis using i2 p by blast
qed

lemma cross_inner:
  "cache_inv tf w \<Longrightarrow> \<forall>j\<in>set js. j < length ex \<Longrightarrow> i < length ey \<Longrightarrow>
   \<exists>ex' ey' w'. fold (\<lambda>j. cross_body tf s bp i j) js (ex, ey, w) = (ex', ey', w')
     \<and> cache_inv tf w' \<and> prefix (cache w) (cache w')
     \<and> length ex' = length ex \<and> length ey' = length ey
     \<and> (\<forall>j'<length ex. ex' ! j' = ex ! j' +
           (\<Sum>j\<leftarrow>js. if j = j' then m_ek s ! j ! i * tf (px (m_pivots s ! i)) (py bp) else 0))
     \<and> (\<forall>i'<length ey. ey' ! i' = ey ! i' +
           (\<Sum>j\<leftarrow>js. if i = i' then m_ek s ! j ! i * tf (px bp) (py (m_pivots s ! j)) else 0))"
proof (induction js arbitrary: ex ey w)
  case Nil
  then show ?case by simp
next
  case (Cons j js)
  let ?ex1 = "ex[j := ex ! j + m_ek s ! j ! i * tf (px (m_pivots s ! i)) (py bp)]"
  let ?ey1 = "ey[i := ey ! i + m_ek s ! j ! i * tf (px bp) (py (m_pivots s ! j))]"
  from cross_body_inv[OF Cons.prems(1), of s bp i j ex ey] obtain w1 where
    1: "cross_body tf s bp i j (ex, ey, w) = (?ex1, ?ey1, w1)"
    and 2: "cache_inv tf w1" and 3: "prefix (cache w) (cache w1)" by blast
  have l1: "\<forall>j\<in>set js. j < length ?ex1" using Cons.prems(2) by simp
  have l2: "i < length ?ey1" using Cons.prems(3) by simp
  from Cons.IH[OF 2 l1 l2] obtain ex' ey' w' where
    4: "fold (\<lambda>j. cross_body tf s bp i j) js (?ex1, ?ey1, w1) = (ex', ey', w')"
    and 5: "cache_inv tf w'" and 6: "prefix (cache w1) (cache w')"
    and 7: "length ex' = length ?ex1" "length ey' = length ?ey1"
    and 8: "\<forall>j'<length ?ex1. ex' ! j' = ?ex1 ! j' +
           (\<Sum>j\<leftarrow>js. if j = j' then m_ek s ! j ! i * tf (px (m_pivots s ! i)) (py bp) else 0)"
    and 9: "\<forall>i'<length ?ey1. ey' ! i' = ?ey1 ! i' +
           (\<Sum>j\<leftarrow>js. if i = i' then m_ek s ! j ! i * tf (px bp) (py (m_pivots s ! j)) else 0)"
    by blast
  have jl: "j < length ex" using Cons.prems(2) by simp
  have a: "fold (\<lambda>j. cross_body tf s bp i j) (j # js) (ex, ey, w) = (ex', ey', w')"
    using 1 4 by simp
  have b: "prefix (cache w) (cache w')" using 3 6 prefix_order.order_trans by blast
  have c: "\<forall>j'<length ex. ex' ! j' = ex ! j' +
           (\<Sum>j\<leftarrow>j # js. if j = j' then m_ek s ! j ! i * tf (px (m_pivots s ! i)) (py bp) else 0)"
    using 8 jl by (auto simp: nth_list_update)
  have d: "\<forall>i'<length ey. ey' ! i' = ey ! i' +
           (\<Sum>j\<leftarrow>j # js. if i = i' then m_ek s ! j ! i * tf (px bp) (py (m_pivots s ! j)) else 0)"
    using 9 Cons.prems(3) by (auto simp: nth_list_update)
  show ?case using a b c d 5 7 by auto
qed

lemma cross_outer:
  "cache_inv tf w \<Longrightarrow> \<forall>j\<in>set js. j < length ex \<Longrightarrow> \<forall>i\<in>set is. i < length ey \<Longrightarrow>
   \<exists>ex' ey' w'. fold (\<lambda>i. fold (\<lambda>j. cross_body tf s bp i j) js) is (ex, ey, w) = (ex', ey', w')
     \<and> cache_inv tf w' \<and> prefix (cache w) (cache w')
     \<and> length ex' = length ex \<and> length ey' = length ey
     \<and> (\<forall>j'<length ex. ex' ! j' = ex ! j' +
           (\<Sum>i\<leftarrow>is. \<Sum>j\<leftarrow>js. if j = j' then m_ek s ! j ! i * tf (px (m_pivots s ! i)) (py bp) else 0))
     \<and> (\<forall>i'<length ey. ey' ! i' = ey ! i' +
           (\<Sum>i\<leftarrow>is. \<Sum>j\<leftarrow>js. if i = i' then m_ek s ! j ! i * tf (px bp) (py (m_pivots s ! j)) else 0))"
proof (induction "is" arbitrary: ex ey w)
  case Nil
  then show ?case by simp
next
  case (Cons i "is")
  have il: "i < length ey" using Cons.prems(3) by simp
  from cross_inner[OF Cons.prems(1,2) il, of s bp] obtain ex1 ey1 w1 where
    1: "fold (\<lambda>j. cross_body tf s bp i j) js (ex, ey, w) = (ex1, ey1, w1)"
    and 2: "cache_inv tf w1" and 3: "prefix (cache w) (cache w1)"
    and 4: "length ex1 = length ex" "length ey1 = length ey"
    and 5: "\<forall>j'<length ex. ex1 ! j' = ex ! j' +
           (\<Sum>j\<leftarrow>js. if j = j' then m_ek s ! j ! i * tf (px (m_pivots s ! i)) (py bp) else 0)"
    and 6: "\<forall>i'<length ey. ey1 ! i' = ey ! i' +
           (\<Sum>j\<leftarrow>js. if i = i' then m_ek s ! j ! i * tf (px bp) (py (m_pivots s ! j)) else 0)"
    by blast
  have l1: "\<forall>j\<in>set js. j < length ex1" using Cons.prems(2) 4 by simp
  have l2: "\<forall>i\<in>set is. i < length ey1" using Cons.prems(3) 4 by simp
  from Cons.IH[OF 2 l1 l2] obtain ex' ey' w' where
    7: "fold (\<lambda>i. fold (\<lambda>j. cross_body tf s bp i j) js) is (ex1, ey1, w1) = (ex', ey', w')"
    and 8: "cache_inv tf w'" and 9: "prefix (cache w1) (cache w')"
    and 10: "length ex' = length ex1" "length ey' = length ey1"
    and 11: "\<forall>j'<length ex1. ex' ! j' = ex1 ! j' +
           (\<Sum>i\<leftarrow>is. \<Sum>j\<leftarrow>js. if j = j' then m_ek s ! j ! i * tf (px (m_pivots s ! i)) (py bp) else 0)"
    and 12: "\<forall>i'<length ey1. ey' ! i' = ey1 ! i' +
           (\<Sum>i\<leftarrow>is. \<Sum>j\<leftarrow>js. if i = i' then m_ek s ! j ! i * tf (px bp) (py (m_pivots s ! j)) else 0)"
    by blast
  have a: "fold (\<lambda>i. fold (\<lambda>j. cross_body tf s bp i j) js) (i # is) (ex, ey, w) = (ex', ey', w')"
    using 1 7 by simp
  have b: "prefix (cache w) (cache w')" using 3 9 prefix_order.order_trans by blast
  have c: "\<forall>j'<length ex. ex' ! j' = ex ! j' +
           (\<Sum>i\<leftarrow>i # is. \<Sum>j\<leftarrow>js. if j = j' then m_ek s ! j ! i * tf (px (m_pivots s ! i)) (py bp) else 0)"
    using 5 11 4 by (simp add: add.assoc)
  have d: "\<forall>i'<length ey. ey' ! i' = ey ! i' +
           (\<Sum>i\<leftarrow>i # is. \<Sum>j\<leftarrow>js. if i = i' then m_ek s ! j ! i * tf (px bp) (py (m_pivots s ! j)) else 0)"
    using 6 12 4 by (simp add: add.assoc)
  show ?case using a b c d 8 10 4 by auto
qed

lemma cross_vectors_inv:
  assumes "cache_inv tf w"
  shows "\<exists>ek_x ek_y w'. cross_vectors tf s w bp = (ek_x, ek_y, w')
     \<and> cache_inv tf w' \<and> prefix (cache w) (cache w')
     \<and> length ek_x = length (m_pivots s) + 1 \<and> length ek_y = length (m_pivots s) + 1
     \<and> ek_x ! length (m_pivots s) = 1 \<and> ek_y ! length (m_pivots s) = 1
     \<and> (\<forall>j<length (m_pivots s). ek_x ! j =
           (\<Sum>i<length (m_pivots s). m_ek s ! j ! i * tf (px (m_pivots s ! i)) (py bp)))
     \<and> (\<forall>i<length (m_pivots s). ek_y ! i =
           (\<Sum>j<length (m_pivots s). m_ek s ! j ! i * tf (px bp) (py (m_pivots s ! j))))"
proof -
  let ?n = "length (m_pivots s)"
  have l1: "\<forall>j\<in>set [0..<?n]. j < length (replicate (?n + 1) (0::real))" by simp
  from cross_outer[OF assms l1 l1, of s bp] obtain ex ey w' where
    1: "fold (\<lambda>i. fold (\<lambda>j. cross_body tf s bp i j) [0..<?n]) [0..<?n]
          (replicate (?n + 1) 0, replicate (?n + 1) 0, w) = (ex, ey, w')"
    and 2: "cache_inv tf w'" and 3: "prefix (cache w) (cache w')"
    and 4: "length ex = ?n + 1" "length ey = ?n + 1"
    and 5: "\<forall>j'<?n + 1. ex ! j' = replicate (?n + 1) 0 ! j' +
           (\<Sum>i\<leftarrow>[0..<?n]. \<Sum>j\<leftarrow>[0..<?n]. if j = j' then m_ek s ! j ! i * tf (px (m_pivots s ! i)) (py bp) else 0)"
    and 6: "\<forall>i'<?n + 1. ey ! i' = replicate (?n + 1) 0 ! i' +
           (\<Sum>i\<leftarrow>[0..<?n]. \<Sum>j\<leftarrow>[0..<?n]. if i = i' then m_ek s ! j ! i * tf (px bp) (py (m_pivots s ! j)) else 0)"
    by (simp only: length_replicate) blast
  have z: "\<And>k. k < ?n + 1 \<Longrightarrow> replicate (?n + 1) (0::real) ! k = 0"
    by (rule nth_replicate)
  have r: "cross_vectors tf s w bp = (ex[?n := 1], ey[?n := 1], w')"
    using 1 by (simp add: cross_vectors_def Let_def)
  have x: "\<forall>j<?n. ex[?n := 1] ! j = (\<Sum>i<?n. m_ek s ! j ! i * tf (px (m_pivots s ! i)) (py bp))"
  proof (intro allI impI)
    fix j assume j: "j < ?n"
    have "ex ! j = (\<Sum>i\<leftarrow>[0..<?n]. \<Sum>j'\<leftarrow>[0..<?n]. if j' = j then m_ek s ! j' ! i * tf (px (m_pivots s ! i)) (py bp) else 0)"
      using 5 j z[of j] by simp
    also have "\<dots> = (\<Sum>i<?n. \<Sum>j'<?n. if j' = j then m_ek s ! j' ! i * tf (px (m_pivots s ! i)) (py bp) else 0)"
      by (simp add: sum_list_upt)
    also have "\<dots> = (\<Sum>i<?n. m_ek s ! j ! i * tf (px (m_pivots s ! i)) (py bp))"
      using j by (simp add: sum.delta)
    finally show "ex[?n := 1] ! j = (\<Sum>i<?n. m_ek s ! j ! i * tf (px (m_pivots s ! i)) (py bp))"
      using j by simp
  qed
  have y: "\<forall>i<?n. ey[?n := 1] ! i = (\<Sum>j<?n. m_ek s ! j ! i * tf (px bp) (py (m_pivots s ! j)))"
  proof (intro allI impI)
    fix i assume i: "i < ?n"
    have "ey ! i = (\<Sum>i'\<leftarrow>[0..<?n]. \<Sum>j\<leftarrow>[0..<?n]. if i' = i then m_ek s ! j ! i' * tf (px bp) (py (m_pivots s ! j)) else 0)"
      using 6 i z[of i] by simp
    also have "\<dots> = (\<Sum>i'<?n. \<Sum>j<?n. if i' = i then m_ek s ! j ! i' * tf (px bp) (py (m_pivots s ! j)) else 0)"
      by (simp add: sum_list_upt)
    also have "\<dots> = (\<Sum>i'<?n. if i' = i then (\<Sum>j<?n. m_ek s ! j ! i' * tf (px bp) (py (m_pivots s ! j))) else 0)"
      by (intro sum.cong) auto
    also have "\<dots> = (\<Sum>j<?n. m_ek s ! j ! i * tf (px bp) (py (m_pivots s ! j)))"
      using i by (simp add: sum.delta)
    finally show "ey[?n := 1] ! i = (\<Sum>j<?n. m_ek s ! j ! i * tf (px bp) (py (m_pivots s ! j)))"
      using i by simp
  qed
  show ?thesis using r 2 3 4 x y by simp
qed

section \<open>The coefficient update\<close>

lemma upd_shape: "map length (M[j := (M ! j)[i := v]]) = map length (M :: real list list)"
proof (cases "j < length M")
  case True
  then show ?thesis by (simp add: map_update list_update_same_conv)
next
  case False
  then have "M[j := (M ! j)[i := v]] = M" by (intro list_update_beyond) simp
  then show ?thesis by simp
qed

lemma upd_nth:
  "j < length M \<Longrightarrow> j' < length M \<Longrightarrow> i < length (M ! j) \<Longrightarrow>
   (M[j := (M ! j)[i := v]]) ! j' ! i' = (if j' = j \<and> i' = i then v else M ! j' ! i')"
  by (auto simp: nth_list_update)

lemma shape_length: "map length M' = map length M \<Longrightarrow> length M' = length (M :: real list list)"
  using length_map by metis

lemma shape_row: "map length M' = map length M \<Longrightarrow> j < length M \<Longrightarrow> length (M' ! j) = length ((M :: real list list) ! j)"
  by (metis length_map nth_map)

lemma in_bounds_shape: "map length M' = map length M \<Longrightarrow> in_bounds M' j i = in_bounds M j i"
  using shape_length[of M' M] shape_row[of M' M j] by (auto simp: in_bounds_def)

lemma update_inner:
  "\<forall>j\<in>set js. in_bounds M j i \<Longrightarrow>
   map length (fold (\<lambda>j M'. M'[j := (M' ! j)[i := M' ! j ! i - ey ! i * ex ! j * dk]]) js M) = map length M \<and>
   (\<forall>j'<length M. \<forall>i'<length (M ! j').
      fold (\<lambda>j M'. M'[j := (M' ! j)[i := M' ! j ! i - ey ! i * ex ! j * dk]]) js M ! j' ! i' =
      M ! j' ! i' - (\<Sum>j\<leftarrow>js. if j = j' \<and> i = i' then ey ! i * ex ! j * dk else 0))"
proof (induction js arbitrary: M)
  case Nil
  then show ?case by simp
next
  case (Cons j js)
  let ?g = "\<lambda>j M'. M'[j := (M' ! j)[i := M' ! j ! i - ey ! i * ex ! j * (dk::real)]]"
  let ?M1 = "?g j M"
  have sh1: "map length ?M1 = map length M" by (rule upd_shape)
  have b1: "\<forall>j\<in>set js. in_bounds ?M1 j i"
    using Cons.prems in_bounds_shape[OF sh1] by simp
  from Cons.IH[OF b1] have
    sh2: "map length (fold ?g js ?M1) = map length ?M1"
    and v2: "\<forall>j'<length ?M1. \<forall>i'<length (?M1 ! j').
      fold ?g js ?M1 ! j' ! i' =
      ?M1 ! j' ! i' - (\<Sum>j\<leftarrow>js. if j = j' \<and> i = i' then ey ! i * ex ! j * dk else 0)"
    by blast+
  have jb: "j < length M" "i < length (M ! j)" using Cons.prems by (simp_all add: in_bounds_def)
  have a: "map length (fold ?g (j # js) M) = map length M" using sh1 sh2 by simp
  have b: "\<forall>j'<length M. \<forall>i'<length (M ! j').
      fold ?g (j # js) M ! j' ! i' =
      M ! j' ! i' - (\<Sum>j\<leftarrow>j # js. if j = j' \<and> i = i' then ey ! i * ex ! j * dk else 0)"
  proof (intro allI impI)
    fix j' i' assume h: "j' < length M" "i' < length (M ! j')"
    have h1: "j' < length ?M1" using h(1) by simp
    have h2: "i' < length (?M1 ! j')" using h shape_row[OF sh1 h(1)] by simp
    have "fold ?g (j # js) M ! j' ! i' =
       ?M1 ! j' ! i' - (\<Sum>j\<leftarrow>js. if j = j' \<and> i = i' then ey ! i * ex ! j * dk else 0)"
      using v2 h1 h2 by simp
    also have "?M1 ! j' ! i' = (if j' = j \<and> i' = i then M ! j ! i - ey ! i * ex ! j * dk else M ! j' ! i')"
      using upd_nth[OF jb(1) h(1) jb(2)] by simp
    finally show "fold ?g (j # js) M ! j' ! i' =
      M ! j' ! i' - (\<Sum>j\<leftarrow>j # js. if j = j' \<and> i = i' then ey ! i * ex ! j * dk else 0)"
      by auto
  qed
  show ?case using a b by blast
qed

lemma update_outer:
  "\<forall>i\<in>set is. \<forall>j\<in>set js. in_bounds M j i \<Longrightarrow>
   map length (fold (\<lambda>i. fold (\<lambda>j M'. M'[j := (M' ! j)[i := M' ! j ! i - ey ! i * ex ! j * dk]]) js) is M) = map length M \<and>
   (\<forall>j'<length M. \<forall>i'<length (M ! j').
      fold (\<lambda>i. fold (\<lambda>j M'. M'[j := (M' ! j)[i := M' ! j ! i - ey ! i * ex ! j * dk]]) js) is M ! j' ! i' =
      M ! j' ! i' - (\<Sum>i\<leftarrow>is. \<Sum>j\<leftarrow>js. if j = j' \<and> i = i' then ey ! i * ex ! j * dk else 0))"
proof (induction "is" arbitrary: M)
  case Nil
  then show ?case by simp
next
  case (Cons i "is")
  let ?g = "\<lambda>i. fold (\<lambda>j M'. M'[j := (M' ! j)[i := M' ! j ! i - ey ! i * ex ! j * (dk::real)]]) js"
  let ?M1 = "?g i M"
  have bi: "\<forall>j\<in>set js. in_bounds M j i" using Cons.prems by simp
  from update_inner[OF bi, of ey ex dk] have
    sh1: "map length ?M1 = map length M"
    and v1: "\<forall>j'<length M. \<forall>i'<length (M ! j'). ?M1 ! j' ! i' =
      M ! j' ! i' - (\<Sum>j\<leftarrow>js. if j = j' \<and> i = i' then ey ! i * ex ! j * dk else 0)"
    by blast+
  have b1: "\<forall>i\<in>set is. \<forall>j\<in>set js. in_bounds ?M1 j i"
    using Cons.prems in_bounds_shape[OF sh1] by simp
  from Cons.IH[OF b1] have
    sh2: "map length (fold ?g is ?M1) = map length ?M1"
    and v2: "\<forall>j'<length ?M1. \<forall>i'<length (?M1 ! j').
      fold ?g is ?M1 ! j' ! i' =
      ?M1 ! j' ! i' - (\<Sum>i\<leftarrow>is. \<Sum>j\<leftarrow>js. if j = j' \<and> i = i' then ey ! i * ex ! j * dk else 0)"
    by blast+
  have a: "map length (fold ?g (i # is) M) = map length M" using sh1 sh2 by simp
  have b: "\<forall>j'<length M. \<forall>i'<length (M ! j').
      fold ?g (i # is) M ! j' ! i' =
      M ! j' ! i' - (\<Sum>i\<leftarrow>i # is. \<Sum>j\<leftarrow>js. if j = j' \<and> i = i' then ey ! i * ex ! j * dk else 0)"
  proof (intro allI impI)
    fix j' i' assume h: "j' < length M" "i' < length (M ! j')"
    have h1: "j' < length ?M1" using h(1) shape_length[OF sh1] by simp
    have h2: "i' < length (?M1 ! j')" using h shape_row[OF sh1 h(1)] by simp
    have "fold ?g (i # is) M ! j' ! i' =
       ?M1 ! j' ! i' - (\<Sum>i\<leftarrow>is. \<Sum>j\<leftarrow>js. if j = j' \<and> i = i' then ey ! i * ex ! j * dk else 0)"
      using v2 h1 h2 by simp
    also have "?M1 ! j' ! i' = M ! j' ! i' - (\<Sum>j\<leftarrow>js. if j = j' \<and> i = i' then ey ! i * ex ! j * dk else 0)"
      using v1 h by simp
    finally show "fold ?g (i # is) M ! j' ! i' =
      M ! j' ! i' - (\<Sum>i\<leftarrow>i # is. \<Sum>j\<leftarrow>js. if j = j' \<and> i = i' then ey ! i * ex ! j * dk else 0)"
      by simp
  qed
  show ?case using a b by blast
qed

lemma update_ek_shape:
  assumes "list_all (\<lambda>i. list_all (\<lambda>j. in_bounds M j i) [0..<n + 1]) [0..<n + 1]"
  shows "map length (update_ek M ex ey dk n) = map length M"
proof -
  have b: "\<forall>i\<in>set [0..<n + 1]. \<forall>j\<in>set [0..<n + 1]. in_bounds M j i"
    using assms by (simp add: list_all_iff)
  show ?thesis using update_outer[OF b, of ey ex dk] by (simp add: update_ek_def)
qed

lemma update_ek_nth:
  assumes "list_all (\<lambda>i. list_all (\<lambda>j. in_bounds M j i) [0..<n + 1]) [0..<n + 1]"
    and "j < length M" "i < length (M ! j)"
  shows "update_ek M ex ey dk n ! j ! i =
     (if i \<le> n \<and> j \<le> n then M ! j ! i - ey ! i * ex ! j * dk else M ! j ! i)"
proof -
  have b: "\<forall>i\<in>set [0..<n + 1]. \<forall>j\<in>set [0..<n + 1]. in_bounds M j i"
    using assms(1) by (simp add: list_all_iff)
  have "update_ek M ex ey dk n ! j ! i =
     M ! j ! i - (\<Sum>i'\<leftarrow>[0..<n + 1]. \<Sum>j'\<leftarrow>[0..<n + 1]. if j' = j \<and> i' = i then ey ! i' * ex ! j' * dk else 0)"
    using update_outer[OF b, of ey ex dk] assms(2,3) by (simp add: update_ek_def)
  also have "(\<Sum>i'\<leftarrow>[0..<n + 1]. \<Sum>j'\<leftarrow>[0..<n + 1]. if j' = j \<and> i' = i then ey ! i' * ex ! j' * dk else 0)
     = (\<Sum>i'<n + 1. \<Sum>j'<n + 1. if j' = j \<and> i' = i then ey ! i' * ex ! j' * dk else 0)"
    by (simp only: sum_list_upt)
  also have "\<dots> = (\<Sum>i'<n + 1. if i' = i then (\<Sum>j'<n + 1. if j' = j then ey ! i * ex ! j' * dk else 0) else 0)"
    by (intro sum.cong refl) auto
  also have "\<dots> = (if i \<le> n \<and> j \<le> n then ey ! i * ex ! j * dk else 0)"
    by (auto simp: sum.delta simp del: sum.lessThan_Suc)
  finally show ?thesis by auto
qed

section \<open>One step\<close>

lemma rank_update_algebra:
  fixes M :: "nat \<Rightarrow> nat \<Rightarrow> real" and F G A B ex ey :: "nat \<Rightarrow> real" and dk :: real
  assumes zr: "\<forall>i\<le>n. M n i = 0" and zc: "\<forall>j\<le>n. M j n = 0"
    and ey: "\<forall>i<n. ey i = (\<Sum>j<n. M j i * B j)" and eyn: "ey n = 1"
    and ex: "\<forall>j<n. ex j = (\<Sum>i<n. M j i * A i)" and exn: "ex n = 1"
  shows "(\<Sum>i<Suc n. \<Sum>j<Suc n. (M j i - ey i * ex j * dk) * F i * G j) =
         (\<Sum>i<n. \<Sum>j<n. M j i * F i * G j)
         - ((\<Sum>i<n. \<Sum>j<n. M j i * F i * B j) + F n) * ((\<Sum>i<n. \<Sum>j<n. M j i * A i * G j) + G n) * dk"
proof -
  have split: "(\<Sum>i<Suc n. \<Sum>j<Suc n. (M j i - ey i * ex j * dk) * F i * G j) =
      (\<Sum>i<Suc n. \<Sum>j<Suc n. M j i * F i * G j) - (\<Sum>i<Suc n. \<Sum>j<Suc n. (ey i * F i) * (ex j * G j)) * dk"
    by (simp only: sum_subtractf[symmetric] sum_distrib_right) (simp add: algebra_simps)
  have inner: "\<And>i. i < n \<Longrightarrow> (\<Sum>j<Suc n. M j i * F i * G j) = (\<Sum>j<n. M j i * F i * G j)"
    using zr by simp
  have last_col: "(\<Sum>j<Suc n. M j n * F n * G j) = 0"
    using zc by (intro sum.neutral) auto
  have first: "(\<Sum>i<Suc n. \<Sum>j<Suc n. M j i * F i * G j) = (\<Sum>i<n. \<Sum>j<n. M j i * F i * G j)"
  proof -
    have "(\<Sum>i<Suc n. \<Sum>j<Suc n. M j i * F i * G j) =
       (\<Sum>i<n. \<Sum>j<Suc n. M j i * F i * G j) + (\<Sum>j<Suc n. M j n * F n * G j)"
      by (rule sum.lessThan_Suc)
    also have "(\<Sum>i<n. \<Sum>j<Suc n. M j i * F i * G j) = (\<Sum>i<n. \<Sum>j<n. M j i * F i * G j)"
      by (intro sum.cong refl inner) simp
    finally show ?thesis using last_col by simp
  qed
  have prod: "(\<Sum>i<Suc n. \<Sum>j<Suc n. (ey i * F i) * (ex j * G j)) =
      (\<Sum>i<Suc n. ey i * F i) * (\<Sum>j<Suc n. ex j * G j)"
    by (rule sum_product[symmetric])
  have sy: "(\<Sum>i<Suc n. ey i * F i) = (\<Sum>i<n. \<Sum>j<n. M j i * F i * B j) + F n"
  proof -
    have "(\<Sum>i<n. ey i * F i) = (\<Sum>i<n. (\<Sum>j<n. M j i * B j) * F i)"
      using ey by (intro sum.cong refl) simp
    also have "\<dots> = (\<Sum>i<n. \<Sum>j<n. M j i * F i * B j)"
      by (simp add: sum_distrib_right mult.assoc mult.commute[of "B _"])
    finally show ?thesis using eyn by simp
  qed
  have sx: "(\<Sum>j<Suc n. ex j * G j) = (\<Sum>i<n. \<Sum>j<n. M j i * A i * G j) + G n"
  proof -
    have "(\<Sum>j<n. ex j * G j) = (\<Sum>j<n. (\<Sum>i<n. M j i * A i) * G j)"
      using ex by (intro sum.cong refl) simp
    also have "\<dots> = (\<Sum>j<n. \<Sum>i<n. M j i * A i * G j)"
      by (simp add: sum_distrib_right)
    also have "\<dots> = (\<Sum>i<n. \<Sum>j<n. M j i * A i * G j)"
      by (rule sum.swap)
    finally show ?thesis using exn by simp
  qed
  show ?thesis unfolding split first prod sy sx by simp
qed

lemma solver_inv_init: "solver_inv it 0 (solver g it)"
  by (simp add: solver_inv_def solver_def)

lemma all_in_bounds_iff:
  assumes "length M = d" "\<forall>j<d. length (M ! j) = d"
  shows "list_all (\<lambda>i. list_all (\<lambda>j. in_bounds M j i) [0..<n + 1]) [0..<n + 1] \<longleftrightarrow> n < d"
proof
  assume "list_all (\<lambda>i. list_all (\<lambda>j. in_bounds M j i) [0..<n + 1]) [0..<n + 1]"
  then have "in_bounds M n n" by (simp add: list_all_iff)
  then show "n < d" using assms by (simp add: in_bounds_def)
next
  assume "n < d"
  then show "list_all (\<lambda>i. list_all (\<lambda>j. in_bounds M j i) [0..<n + 1]) [0..<n + 1]"
    using assms by (auto simp: list_all_iff in_bounds_def)
qed

lemma best_val_is_residual:
  assumes "snd (best tf s) \<noteq> 0"
  shows "snd (best tf s) = ek_sum tf s (px (fst (best tf s))) (py (fst (best tf s)))"
proof -
  from pick_fold_max[of "scan_order s" "ek_sum tf s" "(Real2 0 0, 0)"]
  consider "best tf s = (Real2 0 0, 0)"
    | n where "best tf s = (Real2 (fst (scan_order s ! n)) (snd (scan_order s ! n)),
                 ek_sum tf s (fst (scan_order s ! n)) (snd (scan_order s ! n)))"
    unfolding best_def by blast
  then show ?thesis using assms by cases simp_all
qed

lemma step_cases:
  assumes "cache_inv tf w"
  shows "(snd (best tf s) = 0 \<and> step tf s w = Inl DivisionError) \<or>
         (snd (best tf s) \<noteq> 0 \<and>
          \<not> list_all (\<lambda>i. list_all (\<lambda>j. in_bounds (m_ek s) j i) [0..<length (m_pivots s) + 1]) [0..<length (m_pivots s) + 1] \<and>
          step tf s w = Inl OutOfBounds) \<or>
         (snd (best tf s) \<noteq> 0 \<and>
          list_all (\<lambda>i. list_all (\<lambda>j. in_bounds (m_ek s) j i) [0..<length (m_pivots s) + 1]) [0..<length (m_pivots s) + 1] \<and>
          (\<exists>ek_x ek_y w'.
             step tf s w = Inr (s\<lparr>m_ek := update_ek (m_ek s) ek_x ek_y (1 / snd (best tf s)) (length (m_pivots s)),
                                  m_pivots := m_pivots s @ [fst (best tf s)]\<rparr>, w')
             \<and> cache_inv tf w' \<and> prefix (cache w) (cache w')
             \<and> set (scan_order s) \<subseteq> set (f_calls w')
             \<and> ek_x ! length (m_pivots s) = 1 \<and> ek_y ! length (m_pivots s) = 1
             \<and> (\<forall>j<length (m_pivots s). ek_x ! j =
                   (\<Sum>i<length (m_pivots s). m_ek s ! j ! i * tf (px (m_pivots s ! i)) (py (fst (best tf s)))))
             \<and> (\<forall>i<length (m_pivots s). ek_y ! i =
                   (\<Sum>j<length (m_pivots s). m_ek s ! j ! i * tf (px (fst (best tf s))) (py (m_pivots s ! j))))))"
proof -
  let ?bp = "fst (best tf s)" and ?bv = "snd (best tf s)"
  from find_pivot_inv[OF assms, of s] obtain w1 where
    1: "find_pivot tf s w = (?bp, ?bv, w1)" and 2: "cache_inv tf w1"
    and 3: "prefix (cache w) (cache w1)" and 4: "set (scan_order s) \<subseteq> set (f_calls w1)"
    unfolding best_def by blast
  show ?thesis
  proof (cases "?bv = 0")
    case True
    then show ?thesis using 1 by (simp add: step_def sdiv_def)
  next
    case False
    from cross_vectors_inv[OF 2, of s ?bp] obtain ek_x ek_y w2 where
      5: "cross_vectors tf s w1 ?bp = (ek_x, ek_y, w2)" and 6: "cache_inv tf w2"
      and 7: "prefix (cache w1) (cache w2)"
      and 8: "ek_x ! length (m_pivots s) = 1" "ek_y ! length (m_pivots s) = 1"
        "\<forall>j<length (m_pivots s). ek_x ! j =
           (\<Sum>i<length (m_pivots s). m_ek s ! j ! i * tf (px (m_pivots s ! i)) (py ?bp))"
        "\<forall>i<length (m_pivots s). ek_y ! i =
           (\<Sum>j<length (m_pivots s). m_ek s ! j ! i * tf (px ?bp) (py (m_pivots s ! j)))"
      by blast
    have 9: "prefix (cache w) (cache w2)" using 3 7 prefix_order.order_trans by blast
    have 10: "set (scan_order s) \<subseteq> set (f_calls w2)" using calls_mono[OF 2 6 7] 4 by auto
    show ?thesis
    proof (cases "list_all (\<lambda>i. list_all (\<lambda>j. in_bounds (m_ek s) j i) [0..<length (m_pivots s) + 1]) [0..<length (m_pivots s) + 1]")
      case True
      have "step tf s w = Inr (s\<lparr>m_ek := update_ek (m_ek s) ek_x ek_y (1 / ?bv) (length (m_pivots s)),
                                  m_pivots := m_pivots s @ [?bp]\<rparr>, w2)"
        using False True 1 5 by (simp add: step_def sdiv_def Let_def)
      then show ?thesis using False True 6 8 9 10 by blast
    next
      case nb: False
      have "step tf s w = Inl OutOfBounds"
        using False nb 1 5 by (simp add: step_def sdiv_def Let_def)
      then show ?thesis using False nb by blast
    qed
  qed
qed

lemma step_success:
  assumes ci: "cache_inv tf w" and si: "solver_inv it k s" and st: "step tf s w = Inr (s', w')"
  shows "solver_inv it (Suc k) s' \<and> cache_inv tf w' \<and> prefix (cache w) (cache w')
     \<and> k < nat it \<and> snd (best tf s) \<noteq> 0
     \<and> set (scan_order s) \<subseteq> set (f_calls w')
     \<and> m_pivots s' = m_pivots s @ [fst (best tf s)]
     \<and> m_coeff s' = m_coeff s \<and> m_iters s' = m_iters s \<and> m_grid_size s' = m_grid_size s
     \<and> (\<forall>i<nat it. \<forall>j<nat it. k < i \<or> k < j \<longrightarrow> m_ek s' ! j ! i = m_ek s ! j ! i)
     \<and> (\<forall>x y. ek_sum tf s' x y =
           ek_sum tf s x y - ek_sum tf s (px (fst (best tf s))) y * ek_sum tf s x (py (fst (best tf s)))
              * (1 / snd (best tf s)))"
proof -
  let ?bp = "fst (best tf s)" and ?bv = "snd (best tf s)"
  let ?M = "m_ek s" and ?P = "m_pivots s"
  have len: "length ?P = k" and kle: "k \<le> nat it" and d1: "length ?M = nat it"
    and d2: "\<forall>j<nat it. length (?M ! j) = nat it"
    and zero: "\<forall>i<nat it. \<forall>j<nat it. k \<le> i \<or> k \<le> j \<longrightarrow> ?M ! j ! i = 0"
    using si by (simp_all add: solver_inv_def)
  from step_cases[OF ci, of s] st obtain ek_x ek_y where
    nz: "?bv \<noteq> 0"
    and ib: "list_all (\<lambda>i. list_all (\<lambda>j. in_bounds ?M j i) [0..<k + 1]) [0..<k + 1]"
    and s': "s' = s\<lparr>m_ek := update_ek ?M ek_x ek_y (1 / ?bv) k, m_pivots := ?P @ [?bp]\<rparr>"
    and ci': "cache_inv tf w'" and pre: "prefix (cache w) (cache w')"
    and called: "set (scan_order s) \<subseteq> set (f_calls w')"
    and exn: "ek_x ! k = 1" and eyn: "ek_y ! k = 1"
    and ex: "\<forall>j<k. ek_x ! j = (\<Sum>i<k. ?M ! j ! i * tf (px (?P ! i)) (py ?bp))"
    and ey: "\<forall>i<k. ek_y ! i = (\<Sum>j<k. ?M ! j ! i * tf (px ?bp) (py (?P ! j)))"
    unfolding len by auto
  have klt: "k < nat it" using ib all_in_bounds_iff[OF d1 d2, of k] by simp
  let ?M' = "update_ek ?M ek_x ek_y (1 / ?bv) k"
  have sh: "map length ?M' = map length ?M" using ib by (rule update_ek_shape)
  have M': "m_ek s' = ?M'" and P': "m_pivots s' = ?P @ [?bp]" using s' by simp_all
  have nth': "\<And>i j. i < nat it \<Longrightarrow> j < nat it \<Longrightarrow>
        ?M' ! j ! i = (if i \<le> k \<and> j \<le> k then ?M ! j ! i - ek_y ! i * ek_x ! j * (1 / ?bv) else ?M ! j ! i)"
    using update_ek_nth[OF ib] d1 d2 by simp
  have inv': "solver_inv it (Suc k) s'"
    unfolding solver_inv_def
  proof (intro conjI)
    show "length (m_pivots s') = Suc k" using P' len by simp
    show "Suc k \<le> nat it" using klt by simp
    show "length (m_ek s') = nat it" using M' shape_length[OF sh] d1 by simp
    show "\<forall>j<nat it. length (m_ek s' ! j) = nat it"
      using M' shape_row[OF sh] d1 d2 by simp
    show "\<forall>i<nat it. \<forall>j<nat it. Suc k \<le> i \<or> Suc k \<le> j \<longrightarrow> m_ek s' ! j ! i = 0"
      using M' nth' zero by auto
  qed
  have frame: "\<forall>i<nat it. \<forall>j<nat it. k < i \<or> k < j \<longrightarrow> m_ek s' ! j ! i = m_ek s ! j ! i"
    using M' nth' by auto
  have rec: "\<forall>x y. ek_sum tf s' x y =
           ek_sum tf s x y - ek_sum tf s (px ?bp) y * ek_sum tf s x (py ?bp) * (1 / ?bv)"
  proof (intro allI)
    fix x y
    let ?F = "\<lambda>i. if i < k then tf (px (?P ! i)) y else tf (px ?bp) y"
    let ?G = "\<lambda>j. if j < k then tf x (py (?P ! j)) else tf x (py ?bp)"
    have zr: "\<forall>i\<le>k. ?M ! k ! i = 0" using zero klt by auto
    have zc: "\<forall>j\<le>k. ?M ! j ! k = 0" using zero klt by auto
    have "ek_sum tf s' x y = tf x y +
        (\<Sum>i<Suc k. \<Sum>j<Suc k. ?M' ! j ! i * tf (px ((?P @ [?bp]) ! i)) y * tf x (py ((?P @ [?bp]) ! j)))"
      using M' P' len by (simp add: ek_sum_def)
    also have "(\<Sum>i<Suc k. \<Sum>j<Suc k. ?M' ! j ! i * tf (px ((?P @ [?bp]) ! i)) y * tf x (py ((?P @ [?bp]) ! j)))
        = (\<Sum>i<Suc k. \<Sum>j<Suc k. (?M ! j ! i - ek_y ! i * ek_x ! j * (1 / ?bv)) * ?F i * ?G j)"
    proof (intro sum.cong refl)
      fix i j assume "i \<in> {..<Suc k}" "j \<in> {..<Suc k}"
      then have ij: "i \<le> k" "j \<le> k" by auto
      then have "i < nat it" "j < nat it" using klt by auto
      then have "?M' ! j ! i = ?M ! j ! i - ek_y ! i * ek_x ! j * (1 / ?bv)"
        using nth' ij by simp
      moreover have "tf (px ((?P @ [?bp]) ! i)) y = ?F i" using ij len by (auto simp: nth_append)
      moreover have "tf x (py ((?P @ [?bp]) ! j)) = ?G j" using ij len by (auto simp: nth_append)
      ultimately show "?M' ! j ! i * tf (px ((?P @ [?bp]) ! i)) y * tf x (py ((?P @ [?bp]) ! j)) =
         (?M ! j ! i - ek_y ! i * ek_x ! j * (1 / ?bv)) * ?F i * ?G j" by simp
    qed
    also have "\<dots> = (\<Sum>i<k. \<Sum>j<k. ?M ! j ! i * ?F i * ?G j)
         - ((\<Sum>i<k. \<Sum>j<k. ?M ! j ! i * ?F i * tf (px ?bp) (py (?P ! j))) + ?F k)
           * ((\<Sum>i<k. \<Sum>j<k. ?M ! j ! i * tf (px (?P ! i)) (py ?bp) * ?G j) + ?G k) * (1 / ?bv)"
      by (rule rank_update_algebra[where M = "\<lambda>j i. ?M ! j ! i" and ex = "\<lambda>j. ek_x ! j" and ey = "\<lambda>i. ek_y ! i",
            OF zr zc ey eyn ex exn])
    also have "(\<Sum>i<k. \<Sum>j<k. ?M ! j ! i * ?F i * ?G j) = ek_sum tf s x y - tf x y"
      using len by (simp add: ek_sum_def)
    also have "(\<Sum>i<k. \<Sum>j<k. ?M ! j ! i * ?F i * tf (px ?bp) (py (?P ! j))) + ?F k = ek_sum tf s (px ?bp) y"
      using len by (simp add: ek_sum_def)
    also have "(\<Sum>i<k. \<Sum>j<k. ?M ! j ! i * tf (px (?P ! i)) (py ?bp) * ?G j) + ?G k = ek_sum tf s x (py ?bp)"
      using len by (simp add: ek_sum_def)
    finally show "ek_sum tf s' x y =
           ek_sum tf s x y - ek_sum tf s (px ?bp) y * ek_sum tf s x (py ?bp) * (1 / ?bv)"
      by simp
  qed
  show ?thesis using inv' ci' pre klt nz called P' frame rec s' by simp
qed

lemma steps_inv:
  "cache_inv tf w \<Longrightarrow> solver_inv it k0 s \<Longrightarrow> steps tf n s w = Inr (s', w') \<Longrightarrow>
   solver_inv it (k0 + n) s' \<and> cache_inv tf w' \<and> prefix (cache w) (cache w')
   \<and> m_coeff s' = m_coeff s \<and> m_iters s' = m_iters s \<and> m_grid_size s' = m_grid_size s"
proof (induction n arbitrary: k0 s w)
  case 0
  then show ?case by simp
next
  case (Suc n)
  from Suc.prems(3) obtain s1 w1 where 1: "step tf s w = Inr (s1, w1)"
    and 2: "steps tf n s1 w1 = Inr (s', w')"
    by (auto split: sum.splits)
  from step_success[OF Suc.prems(1,2) 1] have
    3: "solver_inv it (Suc k0) s1" "cache_inv tf w1" "prefix (cache w) (cache w1)"
      "m_coeff s1 = m_coeff s" "m_iters s1 = m_iters s" "m_grid_size s1 = m_grid_size s" by simp_all
  from Suc.IH[OF 3(2) 3(1) 2] have
    4: "solver_inv it (Suc k0 + n) s'" "cache_inv tf w'" "prefix (cache w1) (cache w')"
      "m_coeff s' = m_coeff s1" "m_iters s' = m_iters s1" "m_grid_size s' = m_grid_size s1" by simp_all
  have "prefix (cache w) (cache w')" using 3(3) 4(3) prefix_order.order_trans by blast
  then show ?case using 3 4 by simp
qed

lemma reach_inv:
  assumes "cache_inv tf w0" "steps tf k (solver g it) w0 = Inr (s, w)"
  shows "solver_inv it k s \<and> cache_inv tf w \<and> prefix (cache w0) (cache w) \<and> m_coeff s = m_coeff (solver g it)"
  using steps_inv[OF assms(1) solver_inv_init assms(2)] by simp

lemma find_pivot_best:
  assumes "cache_inv tf w" "find_pivot tf s w = (p, v, w1)"
  shows "p = fst (best tf s) \<and> v = snd (best tf s) \<and> cache_inv tf w1"
  using find_pivot_inv[OF assms(1), of s] assms(2) unfolding best_def by auto

lemma steps_no_oob:
  "cache_inv tf w \<Longrightarrow> solver_inv it k0 s \<Longrightarrow> k0 + n \<le> nat it \<Longrightarrow> steps tf n s w \<noteq> Inl OutOfBounds"
proof (induction n arbitrary: k0 s w)
  case 0
  then show ?case by simp
next
  case (Suc n)
  have d: "length (m_ek s) = nat it" "\<forall>j<nat it. length (m_ek s ! j) = nat it" "length (m_pivots s) = k0"
    using Suc.prems(2) by (simp_all add: solver_inv_def)
  have ib: "list_all (\<lambda>i. list_all (\<lambda>j. in_bounds (m_ek s) j i) [0..<length (m_pivots s) + 1]) [0..<length (m_pivots s) + 1]"
    using all_in_bounds_iff[OF d(1,2), of k0] Suc.prems(3) d(3) by simp
  show ?case
  proof (cases "step tf s w")
    case (Inl e)
    then have "e = DivisionError" using step_cases[OF Suc.prems(1), of s] ib by auto
    then show ?thesis using Inl by simp
  next
    case (Inr r)
    obtain s1 w1 where r: "r = (s1, w1)" by (cases r)
    from step_success[OF Suc.prems(1,2)] Inr r have
      1: "solver_inv it (Suc k0) s1" "cache_inv tf w1" by simp_all
    have "steps tf n s1 w1 \<noteq> Inl OutOfBounds"
      using Suc.IH[OF 1(2) 1(1)] Suc.prems(3) by simp
    then show ?thesis using Inr r by simp
  qed
qed

lemma eval_ek_cong:
  assumes "m_pivots s2 = m_pivots s"
    and "\<forall>i<length (m_pivots s). \<forall>j<length (m_pivots s). m_ek s2 ! j ! i = m_ek s ! j ! i"
  shows "eval_ek tf s2 w x y = eval_ek tf s w x y"
proof -
  let ?n = "length (m_pivots s)"
  have t: "ek_term tf s2 x y i j = ek_term tf s x y i j" if "i < ?n" "j < ?n" for i j
  proof -
    have "m_ek s2 ! j ! i = m_ek s ! j ! i" using assms(2) that by simp
    show ?thesis unfolding ek_term_def assms(1) \<open>m_ek s2 ! j ! i = m_ek s ! j ! i\<close> ..
  qed
  have "\<And>i. i \<in> set [0..<?n] \<Longrightarrow>
      fold (\<lambda>j. ek_term tf s2 x y i j) [0..<?n] = fold (\<lambda>j. ek_term tf s x y i j) [0..<?n]"
    by (rule ext, rule fold_cong) (simp_all add: t)
  note inner = this
  have "fold (\<lambda>i. fold (\<lambda>j. ek_term tf s2 x y i j) [0..<?n]) [0..<?n] =
      fold (\<lambda>i. fold (\<lambda>j. ek_term tf s x y i j) [0..<?n]) [0..<?n]"
    by (rule ext, rule fold_cong) (simp_all add: inner)
  then show ?thesis using assms(1) by (simp add: eval_ek_def)
qed

section \<open>The grid and the target function\<close>

lemma scan_order_length: "length (scan_order s) = length (m_coeff s) * length (m_coeff s)"
  by (simp add: scan_order_def length_concat comp_def sum_list_triv)

lemma solver_grid_length: "length (m_coeff (solver g it)) = nat (g + 1)"
  by (simp add: solver_def)

lemma count_list_distinct: "distinct xs \<Longrightarrow> count_list xs x = (if x \<in> set xs then 1 else 0)"
  by (induction xs) auto

lemma eval_ek_fresh: "eval_ek tf (solver g it) w x y = eval_f tf w x y"
  by (simp add: eval_ek_def solver_def)

lemma cheb_bounds: "- 1 < cheb i n \<and> cheb i n < 1"
proof -
  have "cos (pi * real_of_int i / real_of_int n) \<le> 1" "- 1 \<le> cos (pi * real_of_int i / real_of_int n)"
    by simp_all
  then show ?thesis unfolding cheb_def by linarith
qed

lemma f_pos:
  assumes "- 1 < x" "x < 1" "- 1 < y" "y < 1"
  shows "0 < 1 - ((y + 1) / 2) * ((y + 1) / 2)" and "0 < f x y"
proof -
  let ?d = "(y + 1) / 2" and ?u = "(x + 1) / 2"
  have d: "0 < ?d" "?d < 1" using assms by simp_all
  have "?d * ?d < 1 * 1" using d by (intro mult_strict_mono) simp_all
  then show r: "0 < 1 - ?d * ?d" by simp
  have u: "0 < 1 - ?u" "1 - ?u < 1" using assms by simp_all
  have ac: "0 < arccos ?d" "arccos ?d < pi" using arccos_lt_bounded[of ?d] d by simp_all
  have p1: "0 < (1 - ?u) * arccos ?d" using u(1) ac(1) by simp
  have "(1 - ?u) * arccos ?d < 1 * arccos ?d" using u(2) ac(1) by (intro mult_strict_right_mono) simp_all
  then have p2: "(1 - ?u) * arccos ?d < pi" using ac(2) by simp
  have "0 < sin ((1 - ?u) * arccos ?d)" using p1 p2 by (rule sin_gt_zero)
  moreover have "0 < sqrt (1 - ?d * ?d)" using r by simp
  ultimately show "0 < f x y" by (simp add: f_def Let_def)
qed

section \<open>The emitter\<close>

lemma pivot_lines_spec:
  "concat (map (pivot_lines pr (qs @ ps)) [length qs..<length qs + length ps]) =
   concat (map (\<lambda>l. l @ nl) (spec_statements pr (length qs + 1) ps))"
proof (induction ps arbitrary: qs)
  case Nil
  then show ?case by simp
next
  case (Cons p ps)
  have u: "[length qs..<length qs + length (p # ps)] = length qs # [length (qs @ [p])..<length (qs @ [p]) + length ps]"
    using upt_conv_Cons[of "length qs" "length qs + Suc (length ps)"] by simp
  have h: "pivot_lines pr (qs @ p # ps) (length qs) =
      concat (map (\<lambda>l. l @ nl)
        [''x'' @ dec (length qs + 1) @ ''='' @ pr (px p),
         ''y'' @ dec (length qs + 1) @ ''='' @ pr (py p),
         ''d'' @ dec (length qs + 1) @ ''=e'' @ dec (length qs) @ ''(x'' @ dec (length qs + 1) @ '',y'' @ dec (length qs + 1) @ '')'',
         ''e'' @ dec (length qs + 1) @ ''(x,y)=e'' @ dec (length qs) @ ''(x,y)-e'' @ dec (length qs) @
           ''(x'' @ dec (length qs + 1) @ '',y)*e'' @ dec (length qs) @ ''(x,y'' @ dec (length qs + 1) @ '')/d'' @ dec (length qs + 1)])"
    by (simp add: pivot_lines_def)
  have ih: "concat (map (pivot_lines pr (qs @ p # ps)) [length (qs @ [p])..<length (qs @ [p]) + length ps]) =
     concat (map (\<lambda>l. l @ nl) (spec_statements pr (length (qs @ [p]) + 1) ps))"
    using Cons.IH[of "qs @ [p]"] by simp
  show ?case unfolding u using h ih by simp
qed

section \<open>The sample run, computed\<close>

lemmas run_defs = step_def find_pivot_def scan_body_def eval_ek_def ek_term_def eval_f_def
  cross_vectors_def cross_body_def sdiv_def in_bounds_def update_ek_def Let_def tf_sum_def

lemma cheb_0_1: "cheb 0 1 = - (999999999999999 / 1000000000000000)"
  by (simp add: cheb_def)

lemma cheb_1_1: "cheb 1 1 = 999999999999999 / 1000000000000000"
  by (simp add: cheb_def)

lemma upto_0_1: "[0..1::int] = [0, 1]"
  by (simp add: upto.simps)

lemma grid_1: "m_coeff (solver 1 it) = [- (999999999999999 / 1000000000000000), 999999999999999 / 1000000000000000]"
  by (simp add: solver_def upto_0_1 cheb_0_1 cheb_1_1)

lemma solver_1: "solver 1 it = \<lparr>m_grid_size = 1, m_iters = it,
     m_ek = replicate (nat it) (replicate (nat it) 0),
     m_coeff = [- (999999999999999 / 1000000000000000), 999999999999999 / 1000000000000000],
     m_pivots = []\<rparr>"
  by (simp add: solver_def upto_0_1 cheb_0_1 cheb_1_1)

lemma cache_inv_W1: "cache_inv tf_sum grid_world"
  by (simp add: cache_inv_def grid_world_def tf_sum_def)

lemma step_0_3: "step tf_sum (solver 1 3) init_world = Inr (after_one 3, grid_world)"
  by (simp add: solver_1 run_defs init_world_def numeral_3_eq_3 after_one_def grid_world_def)

lemma step_0_1: "step tf_sum (solver 1 1) init_world = Inr (after_one 1, grid_world)"
  by (simp add: solver_1 run_defs init_world_def after_one_def grid_world_def)

lemma find_pivot_0_3: "find_pivot tf_sum (solver 1 3) init_world = (Real2 c15 c15, 999999999999999 / 500000000000000, grid_world)"
  by (simp add: solver_1 run_defs init_world_def numeral_3_eq_3 grid_world_def)

lemma find_pivot_1_3: "find_pivot tf_sum (after_one 3) grid_world = (Real2 (- c15) (- c15), - (999999999999999 / 500000000000000), grid_world)"
  by (simp add: run_defs numeral_3_eq_3 after_one_def grid_world_def)

lemma step_1_3: "step tf_sum (after_one 3) grid_world = Inr (after_two 3, grid_world)"
  by (simp add: run_defs numeral_3_eq_3 after_one_def after_two_def grid_world_def)

lemma find_pivot_2_3: "find_pivot tf_sum (after_two 3) grid_world = (Real2 c15 c15, 0, grid_world)"
  by (simp add: run_defs numeral_3_eq_3 numeral_2_eq_2 after_two_def grid_world_def)

lemma step_1_1: "step tf_sum (after_one 1) grid_world = Inl OutOfBounds"
  by (simp add: run_defs after_one_def grid_world_def)

lemma steps_1_3: "steps tf_sum 1 (solver 1 3) init_world = Inr (after_one 3, grid_world)"
  using step_0_3 by simp

lemma steps_2_3: "steps tf_sum 2 (solver 1 3) init_world = Inr (after_two 3, grid_world)"
  using step_0_3 step_1_3 by (simp add: numeral_2_eq_2)

lemma steps_1_1: "steps tf_sum 1 (solver 1 1) init_world = Inr (after_one 1, grid_world)"
  using step_0_1 by simp

lemma steps_2_1: "steps tf_sum 2 (solver 1 1) init_world = Inl OutOfBounds"
  using step_0_1 step_1_1 by (simp add: numeral_2_eq_2)

lemma f_corner_pos: "0 < f (- c15) (- c15)"
  by (rule f_pos(2)) simp_all

lemma step_f_0: "step f (solver 1 0) init_world = Inl OutOfBounds"
proof -
  have ci: "cache_inv f init_world" by (rule cache_inv_init)
  have mem: "(- c15, - c15) \<in> set (scan_order (solver 1 0))"
    by (simp add: scan_order_def grid_1)
  have "ek_sum f (solver 1 0) (- c15) (- c15) = f (- c15) (- c15)"
    by (simp add: ek_sum_def solver_def)
  moreover have "\<bar>ek_sum f (solver 1 0) (- c15) (- c15)\<bar> \<le> \<bar>snd (best f (solver 1 0))\<bar>"
    using pick_fold_max[of "scan_order (solver 1 0)" "ek_sum f (solver 1 0)" "(Real2 0 0, 0)"] mem
    unfolding best_def by fastforce
  ultimately have nz: "snd (best f (solver 1 0)) \<noteq> 0" using f_corner_pos by auto
  have nb: "\<not> list_all (\<lambda>i. list_all (\<lambda>j. in_bounds (m_ek (solver 1 0)) j i)
      [0..<length (m_pivots (solver 1 0)) + 1]) [0..<length (m_pivots (solver 1 0)) + 1]"
    by (simp add: solver_def in_bounds_def)
  show ?thesis using step_cases[OF ci, of "solver 1 0"] nz nb by blast
qed

section \<open>The rank update in exact arithmetic\<close>

text \<open>
  The zeroing property of the rank update, in exact arithmetic. In a state reached by
  \<open>k < iters\<close> steps, when the residual \<open>v\<close> that the pivot search selects is not
  zero, the step succeeds, appends the selected pivot \<open>p\<close> as pivot number
  \<open>k + 1\<close>, and the error function of the new state is zero at \<open>p\<close>. The zero is
  the identity \<open>v - v * v * (1 / v) = 0\<close> of a field. The Scalars of the program are
  rounded at the reciprocal, at the update and in the sum of \<^verbatim>\<open>eval_ek\<close>, and this
  lemma does not say that the value the program computes at the pivot is zero.
\<close>

lemma pivot_residual_zero_exact:
  assumes "1 \<le> g" and "cache_inv tf w0" and "steps tf k (solver g it) w0 = Inr (s, w)"
    and "k < nat it" and "find_pivot tf s w = (p, v, w1)" and "v \<noteq> 0"
  shows "\<exists>s' w'. step tf s w = Inr (s', w') \<and> m_pivots s' = m_pivots s @ [p] \<and>
           length (m_pivots s') = k + 1 \<and> fst (eval_ek tf s' w' (px p) (py p)) = 0"
proof -
  have inv: "solver_inv it k s" and ci: "cache_inv tf w" using reach_inv[OF assms(2,3)] by simp_all
  have pv: "p = fst (best tf s)" "v = snd (best tf s)" using find_pivot_best[OF ci assms(5)] by simp_all
  have d: "length (m_ek s) = nat it" "\<forall>j<nat it. length (m_ek s ! j) = nat it" "length (m_pivots s) = k"
    using inv by (simp_all add: solver_inv_def)
  have ib: "list_all (\<lambda>i. list_all (\<lambda>j. in_bounds (m_ek s) j i) [0..<length (m_pivots s) + 1]) [0..<length (m_pivots s) + 1]"
    using all_in_bounds_iff[OF d(1,2), of k] assms(4) d(3) by simp
  from step_cases[OF ci, of s] ib assms(6) pv obtain s' w' where st: "step tf s w = Inr (s', w')"
    by auto
  from step_success[OF ci inv st] have
    ci': "cache_inv tf w'" and P': "m_pivots s' = m_pivots s @ [p]"
    and rec: "ek_sum tf s' (px p) (py p) =
        ek_sum tf s (px p) (py p) - ek_sum tf s (px p) (py p) * ek_sum tf s (px p) (py p) * (1 / v)"
    using pv by simp_all
  have "v = ek_sum tf s (px p) (py p)" using best_val_is_residual[of tf s] assms(6) pv by simp
  then have z: "ek_sum tf s' (px p) (py p) = 0" using rec assms(6) by simp
  from eval_ek_inv[OF ci', of s' "px p" "py p"] have "fst (eval_ek tf s' w' (px p) (py p)) = 0"
    using z by auto
  then show ?thesis using st P' d(3) by simp
qed

text \<open>
  The second step of the sample run: the pivot is \<open>(- c15, - c15)\<close>.
\<close>

lemma pivot_residual_zero_exact_instance:
  "(1::int) \<le> 1 \<and> cache_inv tf_sum init_world \<and>
   steps tf_sum 1 (solver 1 3) init_world = Inr (after_one 3, grid_world) \<and> 1 < nat 3 \<and>
   find_pivot tf_sum (after_one 3) grid_world = (Real2 (- c15) (- c15), - (999999999999999 / 500000000000000), grid_world) \<and>
   - (999999999999999 / 500000000000000) \<noteq> (0::real) \<and>
   (\<exists>s' w'. step tf_sum (after_one 3) grid_world = Inr (s', w') \<and>
      m_pivots s' = m_pivots (after_one 3) @ [Real2 (- c15) (- c15)] \<and>
      length (m_pivots s') = 1 + 1 \<and>
      fst (eval_ek tf_sum s' w' (px (Real2 (- c15) (- c15))) (py (Real2 (- c15) (- c15)))) = 0)"
proof -
  have h1: "(1::int) \<le> 1" by simp
  have h2: "cache_inv tf_sum init_world" by (rule cache_inv_init)
  have h4: "1 < nat 3" by simp
  have h6: "- (999999999999999 / 500000000000000) \<noteq> (0::real)" by simp
  show ?thesis
    using h1 h2 steps_1_3 h4 find_pivot_1_3 h6
      pivot_residual_zero_exact[OF h1 h2 steps_1_3 h4 find_pivot_1_3 h6]
    by blast
qed

section \<open>The claims\<close>

text \<open>
  Claim C1. In every solver state reached by \<open>k\<close> completed steps (there are then
  \<open>k\<close> pivots and \<open>k \<le> iters\<close>), in any world whose cache is consistent,
  \<open>eval_ek x y\<close> returns exactly the target at \<open>(x, y)\<close> plus the sum over
  \<open>i, j < k\<close> of \<open>M[j][i] * tf (pivot[i].x) y * tf x (pivot[j].y)\<close>. The sum on the
  right skips no entry: leaving out the exact zeros, as the code does, does not change
  the result.
\<close>

theorem eval_ek_invariant:
  assumes "1 \<le> g" and "cache_inv tf w0" and "steps tf k (solver g it) w0 = Inr (s, w)"
    and "cache_inv tf w'"
  shows "length (m_pivots s) = k \<and> k \<le> nat it \<and>
         fst (eval_ek tf s w' x y) =
           tf x y + (\<Sum>i<k. \<Sum>j<k. m_ek s ! j ! i * tf (px (m_pivots s ! i)) y * tf x (py (m_pivots s ! j)))"
proof -
  have inv: "solver_inv it k s" using reach_inv[OF assms(2,3)] by simp
  then have len: "length (m_pivots s) = k" and le: "k \<le> nat it" by (simp_all add: solver_inv_def)
  from eval_ek_inv[OF assms(4), of s x y] have "fst (eval_ek tf s w' x y) = ek_sum tf s x y" by auto
  then show ?thesis using len le by (simp add: ek_sum_def)
qed

text \<open>
  The invariant after one step of the sample run, at the point \<open>(0, 0)\<close>.
\<close>

theorem eval_ek_invariant_witness:
  "(1::int) \<le> 1 \<and> cache_inv tf_sum init_world \<and>
   steps tf_sum 1 (solver 1 3) init_world = Inr (after_one 3, grid_world) \<and> cache_inv tf_sum grid_world \<and>
   length (m_pivots (after_one 3)) = 1 \<and> 1 \<le> nat 3 \<and>
   fst (eval_ek tf_sum (after_one 3) grid_world 0 0) =
     tf_sum 0 0 + (\<Sum>i<1. \<Sum>j<1. m_ek (after_one 3) ! j ! i * tf_sum (px (m_pivots (after_one 3) ! i)) 0 * tf_sum 0 (py (m_pivots (after_one 3) ! j)))"
proof -
  have h1: "(1::int) \<le> 1" by simp
  have h2: "cache_inv tf_sum init_world" by (rule cache_inv_init)
  show ?thesis
    using h1 h2 steps_1_3 cache_inv_W1 eval_ek_invariant[OF h1 h2 steps_1_3 cache_inv_W1, of 0 0]
    by blast
qed

text \<open>
  Claim C3, amended. The pivot search visits every pair of the cross product of the grid
  with itself, \<open>(grid_size + 1)\<^sup>2\<close> pairs with \<open>y\<close> in the outer loop and
  \<open>x\<close> in the inner one; when it returns, the target has been applied at each
  of them. The selected pair
  has the maximal absolute residual, and every pair visited after it has a strictly
  smaller one: among equal maxima the last pair wins, since the comparison is
  \<^verbatim>\<open>>=\<close>.
\<close>

theorem pivot_is_last_maximum:
  assumes "1 \<le> g" and "cache_inv tf w0" and "steps tf k (solver g it) w0 = Inr (s, w)"
    and "find_pivot tf s w = (p, v, w')"
  shows "length (scan_order s) = nat (g + 1) * nat (g + 1) \<and>
         set (scan_order s) \<subseteq> set (f_calls w') \<and>
         (\<exists>n<length (scan_order s).
            (px p, py p) = scan_order s ! n \<and>
            v = fst (eval_ek tf s w (px p) (py p)) \<and>
            (\<forall>q\<in>set (scan_order s). \<bar>fst (eval_ek tf s w (fst q) (snd q))\<bar> \<le> \<bar>v\<bar>) \<and>
            (\<forall>m<length (scan_order s). n < m \<longrightarrow>
               \<bar>fst (eval_ek tf s w (fst (scan_order s ! m)) (snd (scan_order s ! m)))\<bar> < \<bar>v\<bar>))"
proof -
  have ci: "cache_inv tf w" and gr: "m_coeff s = m_coeff (solver g it)"
    using reach_inv[OF assms(2,3)] by simp_all
  have ev: "\<And>x y. fst (eval_ek tf s w x y) = ek_sum tf s x y"
    using eval_ek_inv[OF ci, of s] by (metis fst_conv)
  have len: "length (scan_order s) = nat (g + 1) * nat (g + 1)"
    using scan_order_length[of s] gr solver_grid_length by simp
  then have ne: "0 < length (scan_order s)" using assms(1) by simp
  from find_pivot_inv[OF ci, of s] assms(4) have
    pv: "(p, v) = fold (pick (ek_sum tf s)) (scan_order s) (Real2 0 0, 0)"
    and called: "set (scan_order s) \<subseteq> set (f_calls w')" by auto
  from pick_fold_max[of "scan_order s" "ek_sum tf s" "(Real2 0 0, 0)"] pv[symmetric]
  have mx: "\<forall>q\<in>set (scan_order s). \<bar>ek_sum tf s (fst q) (snd q)\<bar> \<le> \<bar>v\<bar>"
    and alt: "(\<forall>q\<in>set (scan_order s). \<bar>ek_sum tf s (fst q) (snd q)\<bar> < 0) \<or>
      (\<exists>n<length (scan_order s). (p, v) = (Real2 (fst (scan_order s ! n)) (snd (scan_order s ! n)),
           ek_sum tf s (fst (scan_order s ! n)) (snd (scan_order s ! n))) \<and>
        (\<forall>m<length (scan_order s). n < m \<longrightarrow>
           \<bar>ek_sum tf s (fst (scan_order s ! m)) (snd (scan_order s ! m))\<bar> <
           \<bar>ek_sum tf s (fst (scan_order s ! n)) (snd (scan_order s ! n))\<bar>))"
    by auto
  have "\<not> (\<forall>q\<in>set (scan_order s). \<bar>ek_sum tf s (fst q) (snd q)\<bar> < 0)"
    using ne by (metis abs_ge_zero length_greater_0_conv not_less nth_mem)
  with alt obtain n where n: "n < length (scan_order s)"
    "p = Real2 (fst (scan_order s ! n)) (snd (scan_order s ! n))"
    "v = ek_sum tf s (fst (scan_order s ! n)) (snd (scan_order s ! n))"
    "\<forall>m<length (scan_order s). n < m \<longrightarrow>
           \<bar>ek_sum tf s (fst (scan_order s ! m)) (snd (scan_order s ! m))\<bar> < \<bar>v\<bar>"
    by auto
  have "(px p, py p) = scan_order s ! n \<and>
            v = fst (eval_ek tf s w (px p) (py p)) \<and>
            (\<forall>q\<in>set (scan_order s). \<bar>fst (eval_ek tf s w (fst q) (snd q))\<bar> \<le> \<bar>v\<bar>) \<and>
            (\<forall>m<length (scan_order s). n < m \<longrightarrow>
               \<bar>fst (eval_ek tf s w (fst (scan_order s ! m)) (snd (scan_order s ! m)))\<bar> < \<bar>v\<bar>)"
    using n mx by (simp add: ev)
  then show ?thesis using len called n(1) by blast
qed

text \<open>
  The first search of the sample run.
\<close>

theorem pivot_is_last_maximum_witness:
  "(1::int) \<le> 1 \<and> cache_inv tf_sum init_world \<and>
   steps tf_sum 0 (solver 1 3) init_world = Inr (solver 1 3, init_world) \<and>
   find_pivot tf_sum (solver 1 3) init_world = (Real2 c15 c15, 999999999999999 / 500000000000000, grid_world) \<and>
   length (scan_order (solver 1 3)) = nat (1 + 1) * nat (1 + 1) \<and>
   set (scan_order (solver 1 3)) \<subseteq> set (f_calls grid_world) \<and>
   (\<exists>n<length (scan_order (solver 1 3)).
      (px (Real2 c15 c15), py (Real2 c15 c15)) = scan_order (solver 1 3) ! n \<and>
      999999999999999 / 500000000000000 = fst (eval_ek tf_sum (solver 1 3) init_world (px (Real2 c15 c15)) (py (Real2 c15 c15))) \<and>
      (\<forall>q\<in>set (scan_order (solver 1 3)).
         \<bar>fst (eval_ek tf_sum (solver 1 3) init_world (fst q) (snd q))\<bar> \<le> \<bar>999999999999999 / 500000000000000\<bar>) \<and>
      (\<forall>m<length (scan_order (solver 1 3)). n < m \<longrightarrow>
         \<bar>fst (eval_ek tf_sum (solver 1 3) init_world (fst (scan_order (solver 1 3) ! m)) (snd (scan_order (solver 1 3) ! m)))\<bar>
           < \<bar>999999999999999 / 500000000000000\<bar>))"
proof -
  have h1: "(1::int) \<le> 1" by simp
  have h2: "cache_inv tf_sum init_world" by (rule cache_inv_init)
  have h3: "steps tf_sum 0 (solver 1 3) init_world = Inr (solver 1 3, init_world)" by simp
  show ?thesis
    using h1 h2 h3 find_pivot_0_3 pivot_is_last_maximum[OF h1 h2 h3 find_pivot_0_3]
    by blast
qed

text \<open>
  Claim C3 as stated fails. In the first search of the sample run the residuals at
  \<open>(- c15, - c15)\<close>, visited first, and at \<open>(c15, c15)\<close>, visited last, have the
  same absolute value, the largest of the four. The first-encountered maximum is
  \<open>(- c15, - c15)\<close>; the code selects \<open>(c15, c15)\<close>.
\<close>

theorem first_max_counterexample:
  "fst (find_pivot tf_sum (solver 1 3) init_world) = Real2 c15 c15 \<and>
   spec_first_max tf_sum (solver 1 3) init_world = Some (- c15, - c15) \<and>
   \<bar>fst (eval_ek tf_sum (solver 1 3) init_world (- c15) (- c15))\<bar> =
   \<bar>fst (eval_ek tf_sum (solver 1 3) init_world c15 c15)\<bar> \<and>
   scan_order (solver 1 3) = [(- c15, - c15), (c15, - c15), (- c15, c15), (c15, c15)]"
  unfolding find_pivot_0_3
  by (simp add: spec_first_max_def scan_order_def grid_1 eval_ek_fresh eval_f_def
      init_world_def tf_sum_def Let_def)

text \<open>
  Claim C4. With the division of the specification, a step returns the division error
  exactly when the selected residual \<open>v\<close> is zero. In a state reached by
  \<open>k < iters\<close> steps this is the only error: the step fails if and only if
  \<open>v = 0\<close>, and when \<open>v \<noteq> 0\<close> it completes with one more pivot.
\<close>

theorem step_division_error:
  assumes "1 \<le> g" and "cache_inv tf w0" and "steps tf k (solver g it) w0 = Inr (s, w)"
    and "find_pivot tf s w = (p, v, w1)"
  shows "(step tf s w = Inl DivisionError \<longleftrightarrow> v = 0) \<and>
         (k < nat it \<longrightarrow>
            ((\<exists>e. step tf s w = Inl e) \<longleftrightarrow> v = 0) \<and>
            (v \<noteq> 0 \<longrightarrow> (\<exists>s' w'. step tf s w = Inr (s', w') \<and> length (m_pivots s') = k + 1)))"
proof -
  have inv: "solver_inv it k s" and ci: "cache_inv tf w" using reach_inv[OF assms(2,3)] by simp_all
  have pv: "p = fst (best tf s)" "v = snd (best tf s)" using find_pivot_best[OF ci assms(4)] by simp_all
  have d: "length (m_ek s) = nat it" "\<forall>j<nat it. length (m_ek s ! j) = nat it" "length (m_pivots s) = k"
    using inv by (simp_all add: solver_inv_def)
  have a: "step tf s w = Inl DivisionError \<longleftrightarrow> v = 0"
    using step_cases[OF ci, of s] pv by auto
  have b: "((\<exists>e. step tf s w = Inl e) \<longleftrightarrow> v = 0) \<and>
            (v \<noteq> 0 \<longrightarrow> (\<exists>s' w'. step tf s w = Inr (s', w') \<and> length (m_pivots s') = k + 1))"
    if "k < nat it"
  proof -
    have ib: "list_all (\<lambda>i. list_all (\<lambda>j. in_bounds (m_ek s) j i) [0..<length (m_pivots s) + 1]) [0..<length (m_pivots s) + 1]"
      using all_in_bounds_iff[OF d(1,2), of k] that d(3) by simp
    have len: "length (m_pivots s') = k + 1" if "step tf s w = Inr (s', w')" for s' w'
      using step_success[OF ci inv that] d(3) by simp
    show ?thesis using step_cases[OF ci, of s] ib pv len by auto
  qed
  show ?thesis using a b by blast
qed

text \<open>
  In the sample run the third search finds only zero residuals and the step returns the
  division error; the second search finds a non-zero one and the step completes.
\<close>

theorem step_division_error_witness:
  "(1::int) \<le> 1 \<and> cache_inv tf_sum init_world \<and>
   steps tf_sum 2 (solver 1 3) init_world = Inr (after_two 3, grid_world) \<and> 2 < nat 3 \<and>
   find_pivot tf_sum (after_two 3) grid_world = (Real2 c15 c15, 0, grid_world) \<and>
   step tf_sum (after_two 3) grid_world = Inl DivisionError \<and>
   steps tf_sum 1 (solver 1 3) init_world = Inr (after_one 3, grid_world) \<and> 1 < nat 3 \<and>
   find_pivot tf_sum (after_one 3) grid_world = (Real2 (- c15) (- c15), - (999999999999999 / 500000000000000), grid_world) \<and>
   - (999999999999999 / 500000000000000) \<noteq> (0::real) \<and>
   step tf_sum (after_one 3) grid_world \<noteq> Inl DivisionError \<and>
   (\<exists>s' w'. step tf_sum (after_one 3) grid_world = Inr (s', w') \<and> length (m_pivots s') = 1 + 1)"
proof -
  have h1: "(1::int) \<le> 1" by simp
  have h2: "cache_inv tf_sum init_world" by (rule cache_inv_init)
  have h4: "2 < nat 3" "1 < nat 3" by simp_all
  have h6: "- (999999999999999 / 500000000000000) \<noteq> (0::real)" by simp
  show ?thesis
    using h1 h2 steps_2_3 steps_1_3 h4 h6 find_pivot_2_3 find_pivot_1_3
      step_division_error[OF h1 h2 steps_2_3 find_pivot_2_3]
      step_division_error[OF h1 h2 steps_1_3 find_pivot_1_3]
    by blast
qed

lemma lookup_first_match:
  "lookup c x y = Some v \<Longrightarrow>
   \<exists>c1 c2. c = c1 @ (x, y, v) # c2 \<and> (x, y) \<notin> set (map (\<lambda>(a, b, u). (a, b)) c1)"
proof (induction c x y rule: lookup.induct)
  case (1 x y)
  then show ?case by simp
next
  case (2 a b u c x y)
  show ?case
  proof (cases "x = a \<and> y = b")
    case True
    then have "u = v" using 2(2) by simp
    then have "(a, b, u) # c = [] @ (x, y, v) # c \<and> (x, y) \<notin> set (map (\<lambda>(a, b, u). (a, b)) [])"
      using True by simp
    then show ?thesis by blast
  next
    case False
    then have "lookup c x y = Some v" using 2(2) by auto
    from 2(1)[OF False this] obtain c1 c2 where
      c: "c = c1 @ (x, y, v) # c2" "(x, y) \<notin> set (map (\<lambda>(a, b, u). (a, b)) c1)" by blast
    have "(a, b, u) # c = ((a, b, u) # c1) @ (x, y, v) # c2 \<and>
          (x, y) \<notin> set (map (\<lambda>(a, b, u). (a, b)) ((a, b, u) # c1))"
      using c False by auto
    then show ?thesis by blast
  qed
qed

text \<open>
  Claim C5. In every world, consistent or not, \<open>eval_f x y\<close> is answered from the cache
  when the scan finds a triple with both coordinates equal to \<open>x\<close> and \<open>y\<close>: it
  returns the value stored in the first such triple, does not apply the target function
  and leaves the world as it is. When there is no such triple it applies the target
  function once and appends the triple to the cache. The scan misses exactly when no
  triple has the coordinates \<open>(x, y)\<close>. In a world whose cache is consistent, the call
  returns the value of the target function at \<open>(x, y)\<close>, so all calls at the same
  coordinates return the same value; the cache and the log of applications only grow at
  the end, the world stays consistent, the target has been applied at most once at
  each pair, exactly once at \<open>(x, y)\<close>, and a second call at \<open>(x, y)\<close> is answered
  from the cache and changes nothing. The empty world of the process start is consistent
  (\<open>cache_inv_init\<close>), and \<open>eval_ek\<close>, the pivot search and the step keep the world
  consistent.
\<close>

theorem eval_f_memoised:
  "(lookup (cache w) x y = Some v \<longrightarrow>
      eval_f tf w x y = (v, w) \<and>
      (\<exists>c1 c2. cache w = c1 @ (x, y, v) # c2 \<and> (x, y) \<notin> set (map (\<lambda>(a, b, u). (a, b)) c1))) \<and>
   (lookup (cache w) x y = None \<longrightarrow>
      eval_f tf w x y =
        (tf x y, w\<lparr>cache := cache w @ [(x, y, tf x y)], f_calls := f_calls w @ [(x, y)]\<rparr>)) \<and>
   (lookup (cache w) x y = None \<longleftrightarrow> (x, y) \<notin> set (map (\<lambda>(a, b, u). (a, b)) (cache w))) \<and>
   (cache_inv tf w \<longrightarrow>
      fst (eval_f tf w x y) = tf x y \<and>
      cache_inv tf (snd (eval_f tf w x y)) \<and>
      prefix (cache w) (cache (snd (eval_f tf w x y))) \<and>
      prefix (f_calls w) (f_calls (snd (eval_f tf w x y))) \<and>
      distinct (f_calls (snd (eval_f tf w x y))) \<and>
      count_list (f_calls (snd (eval_f tf w x y))) (x, y) = 1 \<and>
      lookup (cache (snd (eval_f tf w x y))) x y = Some (tf x y) \<and>
      eval_f tf (snd (eval_f tf w x y)) x y = (tf x y, snd (eval_f tf w x y)))"
proof -
  have hit: "eval_f tf w x y = (v, w) \<and>
      (\<exists>c1 c2. cache w = c1 @ (x, y, v) # c2 \<and> (x, y) \<notin> set (map (\<lambda>(a, b, u). (a, b)) c1))"
    if "lookup (cache w) x y = Some v"
    using that lookup_first_match[OF that] by (simp add: eval_f_def)
  have miss: "eval_f tf w x y =
        (tf x y, w\<lparr>cache := cache w @ [(x, y, tf x y)], f_calls := f_calls w @ [(x, y)]\<rparr>)"
    if "lookup (cache w) x y = None"
    using that by (simp add: eval_f_def Let_def)
  have none: "lookup (cache w) x y = None \<longleftrightarrow> (x, y) \<notin> set (map (\<lambda>(a, b, u). (a, b)) (cache w))"
    by (rule lookup_None_iff)
  have cons: "fst (eval_f tf w x y) = tf x y \<and>
      cache_inv tf (snd (eval_f tf w x y)) \<and>
      prefix (cache w) (cache (snd (eval_f tf w x y))) \<and>
      prefix (f_calls w) (f_calls (snd (eval_f tf w x y))) \<and>
      distinct (f_calls (snd (eval_f tf w x y))) \<and>
      count_list (f_calls (snd (eval_f tf w x y))) (x, y) = 1 \<and>
      lookup (cache (snd (eval_f tf w x y))) x y = Some (tf x y) \<and>
      eval_f tf (snd (eval_f tf w x y)) x y = (tf x y, snd (eval_f tf w x y))"
    if ci: "cache_inv tf w"
  proof -
    let ?w' = "snd (eval_f tf w x y)"
    have 1: "fst (eval_f tf w x y) = tf x y" using ci by (rule eval_f_value)
    have 2: "cache_inv tf ?w'" using ci by (rule eval_f_inv)
    have 3: "prefix (cache w) (cache ?w')" by (rule eval_f_prefix)
    have 4: "prefix (f_calls w) (f_calls ?w')"
      by (auto simp: eval_f_def Let_def split: option.splits)
    have 5: "distinct (f_calls ?w')" using 2 unfolding cache_inv_def by blast
    have 6: "(x, y) \<in> set (f_calls ?w')" using ci by (rule eval_f_called)
    have 7: "count_list (f_calls ?w') (x, y) = 1" using 5 6 by (simp add: count_list_distinct)
    have "lookup (cache ?w') x y \<noteq> None" using 6 2 by (simp add: lookup_None_iff cache_inv_def)
    then obtain u where u: "lookup (cache ?w') x y = Some u" by auto
    then have "u = tf x y" using 2 lookup_Some_mem[OF u] by (auto simp: cache_inv_def list_all_iff)
    then have 8: "lookup (cache ?w') x y = Some (tf x y)" using u by simp
    then have 9: "eval_f tf ?w' x y = (tf x y, ?w')" by (simp add: eval_f_def)
    show ?thesis using 1 2 3 4 5 7 8 9 by simp
  qed
  show ?thesis using hit miss none cons by blast
qed

text \<open>
  Three calls with the sample target. In a world whose only triple holds 5 at \<open>(0, 0)\<close>,
  where the target is 0, the call at \<open>(0, 0)\<close> returns the stored 5 and changes nothing.
  In the empty world the call applies the target and appends the triple. In the world of
  the sample run the call at a cached pair returns the target's value from the cache.
\<close>

theorem eval_f_memoised_witness:
  "lookup (cache \<lparr>cache = [(0, 0, 5)], f_calls = [(0, 0)]\<rparr>) 0 0 = Some 5 \<and>
   eval_f tf_sum \<lparr>cache = [(0, 0, 5)], f_calls = [(0, 0)]\<rparr> 0 0 =
     (5, \<lparr>cache = [(0, 0, 5)], f_calls = [(0, 0)]\<rparr>) \<and>
   tf_sum 0 0 \<noteq> 5 \<and>
   lookup (cache init_world) 0 0 = None \<and>
   eval_f tf_sum init_world 0 0 =
     (tf_sum 0 0, init_world\<lparr>cache := cache init_world @ [(0, 0, tf_sum 0 0)],
                               f_calls := f_calls init_world @ [(0, 0)]\<rparr>) \<and>
   (0, 0) \<notin> set (map (\<lambda>(a, b, u). (a, b)) (cache init_world)) \<and>
   cache_inv tf_sum grid_world \<and>
   fst (eval_f tf_sum grid_world c15 c15) = tf_sum c15 c15 \<and>
   cache_inv tf_sum (snd (eval_f tf_sum grid_world c15 c15)) \<and>
   prefix (cache grid_world) (cache (snd (eval_f tf_sum grid_world c15 c15))) \<and>
   prefix (f_calls grid_world) (f_calls (snd (eval_f tf_sum grid_world c15 c15))) \<and>
   distinct (f_calls (snd (eval_f tf_sum grid_world c15 c15))) \<and>
   count_list (f_calls (snd (eval_f tf_sum grid_world c15 c15))) (c15, c15) = 1 \<and>
   lookup (cache (snd (eval_f tf_sum grid_world c15 c15))) c15 c15 = Some (tf_sum c15 c15) \<and>
   eval_f tf_sum (snd (eval_f tf_sum grid_world c15 c15)) c15 c15 = (tf_sum c15 c15, snd (eval_f tf_sum grid_world c15 c15))"
proof -
  have h1: "lookup (cache \<lparr>cache = [(0, 0, 5)], f_calls = [(0, 0)]\<rparr>) 0 0 = Some 5" by simp
  have h2: "lookup (cache init_world) 0 0 = None" by (simp add: init_world_def)
  have h3: "tf_sum 0 0 \<noteq> 5" by (simp add: tf_sum_def)
  note a = eval_f_memoised[where w = "\<lparr>cache = [(0, 0, 5)], f_calls = [(0, 0)]\<rparr>" and x = 0 and y = 0
      and v = 5 and tf = tf_sum]
  note b = eval_f_memoised[where w = init_world and x = 0 and y = 0 and tf = tf_sum]
  note c = eval_f_memoised[where w = grid_world and x = c15 and y = c15 and tf = tf_sum]
  show ?thesis using h1 h2 h3 cache_inv_W1 a b c by blast
qed

text \<open>
  Claim C6, amended. The cache is one table for the process, shared by all solvers:
  once an evaluation through any solver \<open>sA\<close> has looked \<open>(x, y)\<close> up, a newly
  constructed solver finds it there: its \<open>eval_ek\<close> at \<open>(x, y)\<close> returns the value
  of the target without applying it and leaves the world as it is. The construction
  itself does not touch the cache.
\<close>

theorem cache_shared_by_all_solvers:
  assumes "cache_inv tf w" and "w1 = snd (eval_ek tf sA w x y)"
  shows "(x, y) \<in> set (f_calls w1) \<and> eval_ek tf (solver g it) w1 x y = (tf x y, w1)"
proof -
  from eval_ek_inv[OF assms(1), of sA x y] have ci: "cache_inv tf w1" using assms(2) by auto
  have c: "(x, y) \<in> set (f_calls w1)" using eval_ek_called[OF assms(1), of x y sA] assms(2) by simp
  then have "lookup (cache w1) x y \<noteq> None" using ci by (simp add: lookup_None_iff cache_inv_def)
  then obtain v where v: "lookup (cache w1) x y = Some v" by auto
  then have "v = tf x y" using ci lookup_Some_mem[OF v] by (auto simp: cache_inv_def list_all_iff)
  then have "eval_f tf w1 x y = (tf x y, w1)" using v by (simp add: eval_f_def)
  then show ?thesis using c by (simp add: eval_ek_fresh)
qed

text \<open>
  An instance with the sample target.
\<close>

theorem cache_shared_by_all_solvers_witness:
  "cache_inv tf_sum init_world \<and>
   (0, 0) \<in> set (f_calls (snd (eval_ek tf_sum (after_one 3) init_world 0 0))) \<and>
   eval_ek tf_sum (solver 3 4) (snd (eval_ek tf_sum (after_one 3) init_world 0 0)) 0 0 =
     (tf_sum 0 0, snd (eval_ek tf_sum (after_one 3) init_world 0 0))"
  using cache_inv_init[of tf_sum]
    cache_shared_by_all_solvers[OF cache_inv_init refl, where tf = tf_sum and x = 0 and y = 0
      and sA = "after_one 3" and g = 3 and it = 4]
  by blast

text \<open>
  Claim C6 as stated fails. After one evaluation at \<open>(0, 0)\<close> through the solver
  \<open>solver 2 3\<close>, from the empty world of the process start, the cache holds one
  triple. The newly constructed \<open>solver 1 1\<close> does not start with an empty cache:
  its evaluation at \<open>(0, 0)\<close> reads that triple and \<open>f\<close> is not applied again.
\<close>

theorem cache_per_solver_counterexample:
  "cache (snd (eval_ek f (solver 2 3) init_world 0 0)) = [(0, 0, f 0 0)] \<and>
   f_calls (snd (eval_ek f (solver 2 3) init_world 0 0)) = [(0, 0)] \<and>
   eval_ek f (solver 1 1) (snd (eval_ek f (solver 2 3) init_world 0 0)) 0 0 =
     (f 0 0, snd (eval_ek f (solver 2 3) init_world 0 0))"
  by (simp add: eval_ek_fresh eval_f_def init_world_def Let_def)

text \<open>
  Claim C7. For \<open>grid_size = n \<ge> 1\<close> the grid has exactly \<open>n + 1\<close> nodes, node
  \<open>i\<close> is \<open>- cos (pi * i / n) * 0.999999999999999\<close>, and every node lies strictly
  between \<open>-1\<close> and \<open>1\<close>. At a node \<open>y\<close> the target function therefore takes its
  square root of \<open>1 - d * d\<close>, \<open>d = (y + 1) / 2\<close>, at a positive number, and divides
  by a non-zero one.
\<close>

theorem grid_nodes_inside:
  assumes "1 \<le> n"
  shows "length (m_coeff (solver n it)) = nat n + 1 \<and>
         (\<forall>i\<in>{0..n}.
            m_coeff (solver n it) ! nat i =
              - cos (pi * real_of_int i / real_of_int n) * (999999999999999 / 1000000000000000) \<and>
            - 1 < m_coeff (solver n it) ! nat i \<and> m_coeff (solver n it) ! nat i < 1 \<and>
            0 < 1 - ((m_coeff (solver n it) ! nat i + 1) / 2) * ((m_coeff (solver n it) ! nat i + 1) / 2) \<and>
            sqrt (1 - ((m_coeff (solver n it) ! nat i + 1) / 2) * ((m_coeff (solver n it) ! nat i + 1) / 2)) \<noteq> 0)"
proof -
  have len: "length (m_coeff (solver n it)) = nat n + 1" using assms by (simp add: solver_def)
  have nodes: "m_coeff (solver n it) ! nat i = cheb i n" if "i \<in> {0..n}" for i
    using that by (simp add: solver_def nth_upto)
  have "m_coeff (solver n it) ! nat i =
              - cos (pi * real_of_int i / real_of_int n) * (999999999999999 / 1000000000000000) \<and>
            - 1 < m_coeff (solver n it) ! nat i \<and> m_coeff (solver n it) ! nat i < 1 \<and>
            0 < 1 - ((m_coeff (solver n it) ! nat i + 1) / 2) * ((m_coeff (solver n it) ! nat i + 1) / 2) \<and>
            sqrt (1 - ((m_coeff (solver n it) ! nat i + 1) / 2) * ((m_coeff (solver n it) ! nat i + 1) / 2)) \<noteq> 0"
    if i: "i \<in> {0..n}" for i
  proof -
    have b: "- 1 < cheb i n" "cheb i n < 1" using cheb_bounds[of i n] by simp_all
    have r: "0 < 1 - ((cheb i n + 1) / 2) * ((cheb i n + 1) / 2)"
      using f_pos(1)[OF b b] .
    then have "sqrt (1 - ((cheb i n + 1) / 2) * ((cheb i n + 1) / 2)) \<noteq> 0" by simp
    then show ?thesis using nodes[OF i] b r by (simp add: cheb_def)
  qed
  then show ?thesis using len by blast
qed

text \<open>
  The last node of the grid of size 1.
\<close>

theorem grid_nodes_inside_witness:
  "(1::int) \<le> 1 \<and> (1::int) \<in> {0..1} \<and>
   length (m_coeff (solver 1 3)) = nat 1 + 1 \<and>
   m_coeff (solver 1 3) ! nat 1 = - cos (pi * real_of_int 1 / real_of_int 1) * (999999999999999 / 1000000000000000) \<and>
   - 1 < m_coeff (solver 1 3) ! nat 1 \<and> m_coeff (solver 1 3) ! nat 1 < 1 \<and>
   0 < 1 - ((m_coeff (solver 1 3) ! nat 1 + 1) / 2) * ((m_coeff (solver 1 3) ! nat 1 + 1) / 2) \<and>
   sqrt (1 - ((m_coeff (solver 1 3) ! nat 1 + 1) / 2) * ((m_coeff (solver 1 3) ! nat 1 + 1) / 2)) \<noteq> 0"
proof -
  have h1: "(1::int) \<le> 1" by simp
  have h2: "(1::int) \<in> {0..1}" by simp
  show ?thesis using h1 h2 grid_nodes_inside[OF h1, of 3] by blast
qed

text \<open>
  Claim C8, amended. The constructor checks nothing and accepts every \<open>iters\<close>: it
  returns a solver with no pivot and a matrix of dimension \<open>iters\<close>, and how many
  steps are made is up to the caller. A run of at most \<open>iters\<close> steps, as
  \<^verbatim>\<open>main\<close> makes, never leaves the matrix: in a state reached by fewer than
  \<open>iters\<close> steps every index of the update loop is inside the matrix.
\<close>

theorem capacity_is_callers_duty:
  assumes "1 \<le> g" and "cache_inv tf w0"
  shows "m_pivots (solver g it) = [] \<and> length (m_ek (solver g it)) = nat it \<and>
         (n \<le> nat it \<longrightarrow> steps tf n (solver g it) w0 \<noteq> Inl OutOfBounds) \<and>
         (\<forall>s w. n < nat it \<and> steps tf n (solver g it) w0 = Inr (s, w) \<longrightarrow>
            list_all (\<lambda>i. list_all (\<lambda>j. in_bounds (m_ek s) j i) [0..<length (m_pivots s) + 1])
              [0..<length (m_pivots s) + 1] \<and>
            step tf s w \<noteq> Inl OutOfBounds)"
proof -
  have a: "n \<le> nat it \<longrightarrow> steps tf n (solver g it) w0 \<noteq> Inl OutOfBounds"
    using steps_no_oob[OF assms(2) solver_inv_init, where n = n and it = it and g1 = g] by simp
  have b: "list_all (\<lambda>i. list_all (\<lambda>j. in_bounds (m_ek s) j i) [0..<length (m_pivots s) + 1])
              [0..<length (m_pivots s) + 1] \<and>
            step tf s w \<noteq> Inl OutOfBounds"
    if lt: "n < nat it" and r: "steps tf n (solver g it) w0 = Inr (s, w)" for s w
  proof -
    have inv: "solver_inv it n s" and ci: "cache_inv tf w" using reach_inv[OF assms(2) r] by simp_all
    have d: "length (m_ek s) = nat it" "\<forall>j<nat it. length (m_ek s ! j) = nat it" "length (m_pivots s) = n"
      using inv by (simp_all add: solver_inv_def)
    have ib: "list_all (\<lambda>i. list_all (\<lambda>j. in_bounds (m_ek s) j i) [0..<length (m_pivots s) + 1])
              [0..<length (m_pivots s) + 1]"
      using all_in_bounds_iff[OF d(1,2), of n] lt d(3) by simp
    have "step tf s w \<noteq> Inl OutOfBounds" using step_cases[OF ci, of s] ib by auto
    then show ?thesis using ib by blast
  qed
  have c: "m_pivots (solver g it) = [] \<and> length (m_ek (solver g it)) = nat it"
    by (simp add: solver_def)
  show ?thesis using a b c by blast
qed

text \<open>
  The second step of the sample run on a solver with \<open>iters = 3\<close>.
\<close>

theorem capacity_is_callers_duty_witness:
  "(1::int) \<le> 1 \<and> cache_inv tf_sum init_world \<and> 1 \<le> nat 3 \<and> 1 < nat 3 \<and>
   m_pivots (solver 1 3) = [] \<and> length (m_ek (solver 1 3)) = nat 3 \<and>
   steps tf_sum 1 (solver 1 3) init_world \<noteq> Inl OutOfBounds \<and>
   steps tf_sum 1 (solver 1 3) init_world = Inr (after_one 3, grid_world) \<and>
   list_all (\<lambda>i. list_all (\<lambda>j. in_bounds (m_ek (after_one 3)) j i) [0..<length (m_pivots (after_one 3)) + 1])
     [0..<length (m_pivots (after_one 3)) + 1] \<and>
   step tf_sum (after_one 3) grid_world \<noteq> Inl OutOfBounds"
proof -
  have h1: "(1::int) \<le> 1" by simp
  have h2: "cache_inv tf_sum init_world" by (rule cache_inv_init)
  have h3: "1 \<le> nat 3" "1 < nat 3" by simp_all
  show ?thesis
    using h1 h2 h3 steps_1_3 capacity_is_callers_duty[OF h1 h2, of 3 1]
    by blast
qed

text \<open>
  Claim C8 as stated fails. The solver with \<open>iters = 1\<close> is constructed without
  complaint and makes one step; the update of the second step of the sample run indexes
  row and column 1 of its 1 by 1 matrix. With the target \<open>f\<close> of the program, the
  update of the first step of a solver with \<open>iters = 0\<close> indexes an empty matrix.
\<close>

theorem capacity_check_counterexample:
  "steps tf_sum 1 (solver 1 1) init_world = Inr (after_one 1, grid_world) \<and>
   steps tf_sum 2 (solver 1 1) init_world = Inl OutOfBounds \<and>
   step f (solver 1 0) init_world = Inl OutOfBounds"
  using steps_1_1 steps_2_1 step_f_0 by blast

text \<open>
  Claim C9. The output of \<^verbatim>\<open>dump_gnuplot\<close> is the output that the specification
  lists, for the pivot list of the solver: the definition of \<open>f\<close>, the line
  \<open>e0(x,y)=f(x,y)\<close>, for each \<open>n\<close> from 1 to the number of pivots the statements for
  \<open>x_n\<close>, \<open>y_n\<close>, \<open>d_n\<close> and \<open>e_n\<close>, and the plot line. It is the same for every
  coefficient matrix. With no pivot it consists of the definitions of \<open>f\<close> and
  \<open>e0\<close> and the plot of \<open>e0\<close>.
\<close>

theorem dump_gnuplot_output:
  "dump_gnuplot pr s = spec_output pr (m_pivots s) \<and>
   dump_gnuplot pr (s\<lparr>m_ek := M\<rparr>) = dump_gnuplot pr s \<and>
   spec_output pr [] =
     ''f(x,y)=sin((1-x)/2*acos((1+y)/2))/sqrt(1-((y+1)/2)**2)'' @ nl @
     ''e0(x,y)=f(x,y)'' @ nl @
     ''splot [-1:1][-1:1] e0(x,y)'' @ nl"
proof -
  have "dump_gnuplot pr s = spec_output pr (m_pivots s)"
    using pivot_lines_spec[of pr "[]" "m_pivots s"]
    by (simp add: dump_gnuplot_def spec_output_def)
  moreover have "dump_gnuplot pr (s\<lparr>m_ek := M\<rparr>) = dump_gnuplot pr s"
    by (simp add: dump_gnuplot_def)
  moreover have "spec_output pr [] =
     ''f(x,y)=sin((1-x)/2*acos((1+y)/2))/sqrt(1-((y+1)/2)**2)'' @ nl @
     ''e0(x,y)=f(x,y)'' @ nl @
     ''splot [-1:1][-1:1] e0(x,y)'' @ nl"
    by (simp add: spec_output_def dec.simps)
  ultimately show ?thesis by blast
qed

text \<open>
  The output for the solver after one step of the sample run.
\<close>

theorem dump_gnuplot_output_witness:
  "dump_gnuplot pr_literal (after_one 3) =
     ''f(x,y)=sin((1-x)/2*acos((1+y)/2))/sqrt(1-((y+1)/2)**2)'' @ nl @
     ''e0(x,y)=f(x,y)'' @ nl @
     ''x1=<literal>'' @ nl @
     ''y1=<literal>'' @ nl @
     ''d1=e0(x1,y1)'' @ nl @
     ''e1(x,y)=e0(x,y)-e0(x1,y)*e0(x,y1)/d1'' @ nl @
     ''splot [-1:1][-1:1] e1(x,y)'' @ nl"
  using dump_gnuplot_output[of pr_literal "after_one 3" "[]"]
  by (simp add: spec_output_def after_one_def pr_literal_def dec.simps)

text \<open>
  Claim C10. In a state reached by \<open>k\<close> steps every entry \<open>M[j][i]\<close> of the
  matrix with \<open>i \<ge> k\<close> or \<open>j \<ge> k\<close> is zero. A step from that state leaves every
  entry with \<open>i > k\<close> or \<open>j > k\<close> as it is. \<open>eval_ek\<close> depends on the matrix only
  through the leading block of size \<open>k\<close>: a solver with the same pivots and the same
  block gives the same result and the same world.
\<close>

theorem unused_region_zero:
  assumes "1 \<le> g" and "cache_inv tf w0" and "steps tf k (solver g it) w0 = Inr (s, w)"
  shows "(\<forall>i<nat it. \<forall>j<nat it. k \<le> i \<or> k \<le> j \<longrightarrow> m_ek s ! j ! i = 0) \<and>
         (\<forall>s' w'. step tf s w = Inr (s', w') \<longrightarrow>
            (\<forall>i<nat it. \<forall>j<nat it. k < i \<or> k < j \<longrightarrow> m_ek s' ! j ! i = m_ek s ! j ! i)) \<and>
         (\<forall>s2 w2 x y. m_pivots s2 = m_pivots s \<and> (\<forall>i<k. \<forall>j<k. m_ek s2 ! j ! i = m_ek s ! j ! i) \<longrightarrow>
            eval_ek tf s2 w2 x y = eval_ek tf s w2 x y)"
proof -
  have inv: "solver_inv it k s" and ci: "cache_inv tf w" using reach_inv[OF assms(2,3)] by simp_all
  have len: "length (m_pivots s) = k" using inv by (simp add: solver_inv_def)
  have a: "\<forall>i<nat it. \<forall>j<nat it. k \<le> i \<or> k \<le> j \<longrightarrow> m_ek s ! j ! i = 0"
    using inv by (simp add: solver_inv_def)
  have b: "\<forall>s' w'. step tf s w = Inr (s', w') \<longrightarrow>
            (\<forall>i<nat it. \<forall>j<nat it. k < i \<or> k < j \<longrightarrow> m_ek s' ! j ! i = m_ek s ! j ! i)"
    using step_success[OF ci inv] by blast
  have c: "\<forall>s2 w2 x y. m_pivots s2 = m_pivots s \<and> (\<forall>i<k. \<forall>j<k. m_ek s2 ! j ! i = m_ek s ! j ! i) \<longrightarrow>
            eval_ek tf s2 w2 x y = eval_ek tf s w2 x y"
    using eval_ek_cong[of _ s] len by blast
  show ?thesis using a b c by blast
qed

text \<open>
  The state after one step of the sample run on a solver with \<open>iters = 3\<close>.
\<close>

theorem unused_region_zero_witness:
  "(1::int) \<le> 1 \<and> cache_inv tf_sum init_world \<and>
   steps tf_sum 1 (solver 1 3) init_world = Inr (after_one 3, grid_world) \<and>
   m_ek (after_one 3) ! 2 ! 1 = 0 \<and>
   step tf_sum (after_one 3) grid_world = Inr (after_two 3, grid_world) \<and>
   m_ek (after_two 3) ! 2 ! 0 = m_ek (after_one 3) ! 2 ! 0 \<and>
   m_pivots (after_one 3\<lparr>m_ek := [[m_ek (after_one 3) ! 0 ! 0, 5], [6, 7]]\<rparr>) = m_pivots (after_one 3) \<and>
   m_ek (after_one 3\<lparr>m_ek := [[m_ek (after_one 3) ! 0 ! 0, 5], [6, 7]]\<rparr>) ! 0 ! 0 = m_ek (after_one 3) ! 0 ! 0 \<and>
   eval_ek tf_sum (after_one 3\<lparr>m_ek := [[m_ek (after_one 3) ! 0 ! 0, 5], [6, 7]]\<rparr>) grid_world 0 0 = eval_ek tf_sum (after_one 3) grid_world 0 0"
proof -
  have h1: "(1::int) \<le> 1" by simp
  have h2: "cache_inv tf_sum init_world" by (rule cache_inv_init)
  have h3: "m_pivots (after_one 3\<lparr>m_ek := [[m_ek (after_one 3) ! 0 ! 0, 5], [6, 7]]\<rparr>) = m_pivots (after_one 3)" by simp
  have h4: "m_ek (after_one 3\<lparr>m_ek := [[m_ek (after_one 3) ! 0 ! 0, 5], [6, 7]]\<rparr>) ! 0 ! 0 = m_ek (after_one 3) ! 0 ! 0"
    by simp
  then have h4': "\<forall>i<1. \<forall>j<1. m_ek (after_one 3\<lparr>m_ek := [[m_ek (after_one 3) ! 0 ! 0, 5], [6, 7]]\<rparr>) ! j ! i = m_ek (after_one 3) ! j ! i"
    by simp
  note t = unused_region_zero[OF h1 h2 steps_1_3]
  from t have "\<forall>i<nat 3. \<forall>j<nat 3. 1 \<le> i \<or> 1 \<le> j \<longrightarrow> m_ek (after_one 3) ! j ! i = 0" by blast
  from this[rule_format, of 1 2] have a: "m_ek (after_one 3) ! 2 ! 1 = 0" by simp
  from t step_1_3 have "\<forall>i<nat 3. \<forall>j<nat 3. 1 < i \<or> 1 < j \<longrightarrow> m_ek (after_two 3) ! j ! i = m_ek (after_one 3) ! j ! i"
    by blast
  from this[rule_format, of 0 2] have b: "m_ek (after_two 3) ! 2 ! 0 = m_ek (after_one 3) ! 2 ! 0" by simp
  from t h3 h4' have c: "eval_ek tf_sum (after_one 3\<lparr>m_ek := [[m_ek (after_one 3) ! 0 ! 0, 5], [6, 7]]\<rparr>) grid_world 0 0 = eval_ek tf_sum (after_one 3) grid_world 0 0"
    by blast
  show ?thesis using h1 h2 h3 h4 steps_1_3 step_1_3 a b c by blast
qed

end
